theory Spec2Isabelle
  imports Main "HOL-Library.AList"
begin

section \<open>Program graph model\<close>

text \<open>
  The two source files, \<^verbatim>\<open>dace/transformation/auto/fpga.py\<close> and
  \<^verbatim>\<open>dace/transformation/interstate/fpga_transform_state.py\<close>, work on the SDFG
  classes of the DaCe library. An SDFG owns a catalog of data descriptors keyed by
  name (an ordered dictionary), a list of states and the control edges between them;
  a state owns its nodes and its data-carrying edges; a nested SDFG node owns a whole
  child SDFG with a catalog of its own.
\<close>

datatype error =
    KeyError | IndexError | AttributeError | ZeroDivisionError | UnboundLocalError | NameError

datatype StorageType = Storage_Default | CPU_Heap | GPU_Global | FPGA_Global | FPGA_Local

datatype ScheduleType =
    Schedule_Default | Sequential | MPI | CPU_Multicore | GPU_Device | GPU_ThreadBlock | FPGA_Device

datatype symexpr =
    Const int | Sym string | Add symexpr symexpr | Sub symexpr symexpr | Mul symexpr symexpr

datatype desc_kind = Array | Stream | Scalar

record desc =
  kind :: desc_kind
  shape :: "symexpr list"
  dtype :: string
  transient :: bool
  storage :: StorageType
  strides :: "symexpr list"
  offset :: "symexpr list"
  allow_conflicts :: bool
  access_order :: "nat list option"
  materialize_func :: "string option"
  location :: "string \<rightharpoonup> int"
  total_size :: symexpr

type_synonym catalog = "(string \<times> desc) list"

text \<open>
  A memlet names the data it moves, its volume, its subset, its vector width and an
  optional write-conflict resolution. An edge of a state joins two nodes, given by
  their identities, through optional connectors. A \<^verbatim>\<open>Map\<close> object is shared by
  its entry and its exit node, so the maps of a state live in a store of their own
  and the two nodes hold its key. Identities stand for Python object identity.
\<close>

type_synonym srange = "(symexpr \<times> symexpr \<times> symexpr) list"

record memlet =
  m_data :: "string option"
  num_accesses :: symexpr
  m_subset :: srange
  veclen :: int
  wcr :: "string option"

record edge =
  src :: nat
  src_conn :: "string option"
  dst :: nat
  dst_conn :: "string option"
  e_data :: memlet

record map_obj =
  map_range :: srange
  schedule :: ScheduleType

record interstate_edge =
  ie_src :: nat
  ie_dst :: nat
  ie_condition :: "string option"
  ie_assignments :: "(string \<times> string) list"

datatype node =
    AccessNode string
  | MapEntry nat
  | MapExit nat
  | Tasklet string
  | NestedSDFG sdfg
and state =
    SDFGState (label: string) (nodes: "(nat \<times> node) list") (edges: "edge list")
      (maps: "nat \<Rightarrow> map_obj") (sdict: "nat \<Rightarrow> nat option")
and sdfg =
    SDFG (arrays: catalog) (constants: "(string \<times> int) list") (states: "state list")
      (cedges: "interstate_edge list")

section \<open>Round-robin bank interleaving\<close>

text \<open>
  \<^verbatim>\<open>fpga_rr_interleave_containers_to_banks(sdfg, num_banks)\<close> enumerates
  \<^verbatim>\<open>sdfg.arrays.items()\<close> and touches nothing but the descriptors, so it is
  embedded on the catalog. \<^verbatim>\<open>i % num_banks\<close> raises ZeroDivisionError for a
  zero bank count; for a negative one \<^verbatim>\<open>range(num_banks)\<close> is empty and the
  indexed update of \<^verbatim>\<open>num_allocated\<close> raises IndexError. On \<open>int\<close> the HOL
  \<open>mod\<close> rounds as Python's \<^verbatim>\<open>%\<close> does. A raise ends the run with the
  error; the descriptors mutated before it are not returned.
\<close>

definition py_index :: "int list \<Rightarrow> int \<Rightarrow> error + nat" where
  "py_index xs j =
     (let n = int (length xs); k = (if j < 0 then n + j else j)
      in if 0 \<le> k \<and> k < n then Inr (nat k) else Inl IndexError)"

fun rr_loop :: "int \<Rightarrow> nat \<Rightarrow> catalog \<Rightarrow> int list \<Rightarrow> error + (catalog \<times> int list)" where
  "rr_loop num_banks i [] num_allocated = Inr ([], num_allocated)"
| "rr_loop num_banks i ((name, d) # rest) num_allocated =
     (if storage d = FPGA_Global then
        (if num_banks = 0 then Inl ZeroDivisionError
         else
           (let d' = d\<lparr>location := (location d)(''bank'' \<mapsto> int i mod num_banks)\<rparr>
            in case py_index num_allocated (int i mod num_banks) of
                 Inl e \<Rightarrow> Inl e
               | Inr k \<Rightarrow>
                   (case rr_loop num_banks (Suc i) rest (num_allocated[k := num_allocated ! k + 1]) of
                      Inl e \<Rightarrow> Inl e
                    | Inr (rest', res) \<Rightarrow> Inr ((name, d') # rest', res))))
      else
        (case rr_loop num_banks (Suc i) rest num_allocated of
           Inl e \<Rightarrow> Inl e
         | Inr (rest', res) \<Rightarrow> Inr ((name, d) # rest', res)))"

definition rr_interleave :: "catalog \<Rightarrow> int \<Rightarrow> error + (catalog \<times> int list)" where
  "rr_interleave arrs num_banks = rr_loop num_banks 0 arrs (replicate (nat num_banks) 0)"

definition fpga_rr_interleave_containers_to_banks :: "sdfg \<Rightarrow> int \<Rightarrow> error + (sdfg \<times> int list)" where
  "fpga_rr_interleave_containers_to_banks g num_banks =
     (case rr_interleave (arrays g) num_banks of
        Inl e \<Rightarrow> Inl e
      | Inr (arrs, num_allocated) \<Rightarrow>
          Inr (SDFG arrs (constants g) (states g) (cedges g), num_allocated))"


section \<open>Graph queries and mutations used by the transformation\<close>

text \<open>
  Modelled from the spec: the graph query and mutation surface of the DaCe library
  (\<^verbatim>\<open>node.desc\<close>, \<^verbatim>\<open>all_edges\<close>, \<^verbatim>\<open>find_source_nodes\<close>,
  \<^verbatim>\<open>find_sink_nodes\<close>, \<^verbatim>\<open>add_array\<close>, \<^verbatim>\<open>add_read\<close>/\<^verbatim>\<open>add_write\<close>,
  \<^verbatim>\<open>add_edge\<close>, \<^verbatim>\<open>remove_node\<close>, \<^verbatim>\<open>change_edge_src\<close>,
  \<^verbatim>\<open>change_edge_dest\<close>), which is not among the source files. A descriptor is
  looked up by name in the catalog of the owning graph and a missing name is a
  KeyError; an edge is incident to a node when it starts or ends there; input nodes
  have no incoming and output nodes no outgoing edge; redirecting keeps every edge in
  its place and replaces one endpoint; removing a node removes its incident edges.
  The field \<open>sdict\<close> of a state is what \<^verbatim>\<open>state.scope_dict()\<close> returns, the
  enclosing scope entry of every node: a node just added has no edge and is
  unscoped, and a node that takes over the incoming edges of another takes over its
  scope.
\<close>

definition lookup_desc :: "catalog \<Rightarrow> string \<Rightarrow> error + desc" where
  "lookup_desc arrs name = (case map_of arrs name of None \<Rightarrow> Inl KeyError | Some d \<Rightarrow> Inr d)"

definition set_storage :: "string \<Rightarrow> StorageType \<Rightarrow> catalog \<Rightarrow> catalog" where
  "set_storage name s arrs =
     (case map_of arrs name of
        None \<Rightarrow> arrs
      | Some d \<Rightarrow> AList.update name (d\<lparr>storage := s\<rparr>) arrs)"

definition node_of :: "state \<Rightarrow> nat \<Rightarrow> node option" where
  "node_of st i = map_of (nodes st) i"

fun is_access :: "node option \<Rightarrow> string \<Rightarrow> bool" where
  "is_access (Some (AccessNode b)) a = (b = a)"
| "is_access n a = False"

definition in_edges :: "state \<Rightarrow> nat \<Rightarrow> edge list" where
  "in_edges st i = filter (\<lambda>e. dst e = i) (edges st)"

definition out_edges :: "state \<Rightarrow> nat \<Rightarrow> edge list" where
  "out_edges st i = filter (\<lambda>e. src e = i) (edges st)"

definition all_edges :: "state \<Rightarrow> nat \<Rightarrow> edge list" where
  "all_edges st i = filter (\<lambda>e. src e = i \<or> dst e = i) (edges st)"

definition find_source_nodes :: "state \<Rightarrow> (nat \<times> node) list" where
  "find_source_nodes st = filter (\<lambda>(i, n). in_edges st i = []) (nodes st)"

definition find_sink_nodes :: "state \<Rightarrow> (nat \<times> node) list" where
  "find_sink_nodes st = filter (\<lambda>(i, n). out_edges st i = []) (nodes st)"

definition add_node :: "state \<Rightarrow> nat \<times> node \<Rightarrow> state" where
  "add_node st n =
     SDFGState (label st) (nodes st @ [n]) (edges st) (maps st) ((sdict st)(fst n := None))"

definition add_edge :: "state \<Rightarrow> edge \<Rightarrow> state" where
  "add_edge st e = SDFGState (label st) (nodes st) (edges st @ [e]) (maps st) (sdict st)"

definition change_edge_src :: "state \<Rightarrow> nat \<Rightarrow> nat \<Rightarrow> state" where
  "change_edge_src st a b =
     SDFGState (label st) (nodes st)
       (map (\<lambda>e. if src e = a then e\<lparr>src := b\<rparr> else e) (edges st)) (maps st) (sdict st)"

definition change_edge_dest :: "state \<Rightarrow> nat \<Rightarrow> nat \<Rightarrow> state" where
  "change_edge_dest st a b =
     SDFGState (label st) (nodes st)
       (map (\<lambda>e. if dst e = a then e\<lparr>dst := b\<rparr> else e) (edges st)) (maps st)
       ((sdict st)(b := sdict st a))"

definition remove_node :: "state \<Rightarrow> nat \<Rightarrow> error + state" where
  "remove_node st a =
     (if a \<in> fst ` set (nodes st) then
        Inr (SDFGState (label st) (filter (\<lambda>(i, n). i \<noteq> a) (nodes st))
               (filter (\<lambda>e. src e \<noteq> a \<and> dst e \<noteq> a) (edges st)) (maps st) (sdict st))
      else Inl KeyError)"

definition prod_expr :: "symexpr list \<Rightarrow> symexpr" where
  "prod_expr xs = foldr Mul xs (Const 1)"

definition full_range :: "symexpr list \<Rightarrow> srange" where
  "full_range shp = map (\<lambda>s. (Const 0, Sub s (Const 1), Const 1)) shp"

definition num_elements :: "srange \<Rightarrow> symexpr" where
  "num_elements r = prod_expr (map (\<lambda>(b, e, s). Add (Sub e b) (Const 1)) r)"

definition add_array :: "catalog \<Rightarrow> string \<Rightarrow> desc \<Rightarrow> error + catalog" where
  "add_array arrs name d =
     (if name \<in> fst ` set arrs then Inl NameError else Inr (arrs @ [(name, d)]))"

definition empty_state :: "string \<Rightarrow> state" where
  "empty_state l = SDFGState l [] [] (\<lambda>_. \<lparr>map_range = [], schedule = Schedule_Default\<rparr>) (\<lambda>_. None)"


section \<open>Recursive reclassification: \<^verbatim>\<open>fpga_update\<close>\<close>

text \<open>
  \<^verbatim>\<open>fpga_update(sdfg, state, depth)\<close> mutates the descriptors of \<^verbatim>\<open>sdfg\<close>,
  the schedules of the nodes of \<^verbatim>\<open>state\<close> and, through the nested SDFG nodes, the
  child graphs. The embedding takes the catalog of \<^verbatim>\<open>sdfg\<close> and the state and
  returns both updated. \<^verbatim>\<open>hasattr(node, "schedule")\<close> holds for the nodes
  that carry a map (entry and exit); the schedule is a field of the shared map.
\<close>

definition update_schedule :: "(nat \<Rightarrow> map_obj) \<Rightarrow> nat \<Rightarrow> (nat \<Rightarrow> map_obj)" where
  "update_schedule ms m =
     (if schedule (ms m) = Schedule_Default then ms(m := (ms m)\<lparr>schedule := FPGA_Device\<rparr>) else ms)"

definition update_storage :: "catalog \<Rightarrow> (nat \<Rightarrow> nat option) \<Rightarrow> nat \<Rightarrow> nat \<Rightarrow> string \<Rightarrow> error + catalog" where
  "update_storage arrs scope_dict depth i a =
     (case lookup_desc arrs a of
        Inl e \<Rightarrow> Inl e
      | Inr nodedesc \<Rightarrow>
          if storage nodedesc = Storage_Default then
            (if depth \<ge> 2 then Inr (set_storage a FPGA_Local arrs)
             else if scope_dict i \<noteq> None then Inr (set_storage a FPGA_Local arrs)
             else Inr (set_storage a FPGA_Global arrs))
          else Inr arrs)"

fun fpga_update :: "catalog \<Rightarrow> state \<Rightarrow> nat \<Rightarrow> error + (catalog \<times> state)"
and fpga_update_nodes ::
  "catalog \<Rightarrow> (nat \<Rightarrow> nat option) \<Rightarrow> nat \<Rightarrow> (nat \<times> node) list \<Rightarrow> (nat \<Rightarrow> map_obj)
    \<Rightarrow> error + (catalog \<times> (nat \<times> node) list \<times> (nat \<Rightarrow> map_obj))"
and fpga_update_states :: "catalog \<Rightarrow> state list \<Rightarrow> nat \<Rightarrow> error + (catalog \<times> state list)"
where
  "fpga_update arrs (SDFGState l ns es ms sd) depth =
     (case fpga_update_nodes arrs sd depth ns ms of
        Inl e \<Rightarrow> Inl e
      | Inr (arrs', ns', ms') \<Rightarrow> Inr (arrs', SDFGState l ns' es ms' sd))"
| "fpga_update_nodes arrs sd depth [] ms = Inr (arrs, [], ms)"
| "fpga_update_nodes arrs sd depth ((i, AccessNode a) # rest) ms =
     (case update_storage arrs sd depth i a of
        Inl e \<Rightarrow> Inl e
      | Inr arrs1 \<Rightarrow>
          (case fpga_update_nodes arrs1 sd depth rest ms of
             Inl e \<Rightarrow> Inl e
           | Inr (arrs', rest', ms') \<Rightarrow> Inr (arrs', (i, AccessNode a) # rest', ms')))"
| "fpga_update_nodes arrs sd depth ((i, MapEntry m) # rest) ms =
     (case fpga_update_nodes arrs sd depth rest (update_schedule ms m) of
        Inl e \<Rightarrow> Inl e
      | Inr (arrs', rest', ms') \<Rightarrow> Inr (arrs', (i, MapEntry m) # rest', ms'))"
| "fpga_update_nodes arrs sd depth ((i, MapExit m) # rest) ms =
     (case fpga_update_nodes arrs sd depth rest (update_schedule ms m) of
        Inl e \<Rightarrow> Inl e
      | Inr (arrs', rest', ms') \<Rightarrow> Inr (arrs', (i, MapExit m) # rest', ms'))"
| "fpga_update_nodes arrs sd depth ((i, Tasklet t) # rest) ms =
     (case fpga_update_nodes arrs sd depth rest ms of
        Inl e \<Rightarrow> Inl e
      | Inr (arrs', rest', ms') \<Rightarrow> Inr (arrs', (i, Tasklet t) # rest', ms'))"
| "fpga_update_nodes arrs sd depth ((i, NestedSDFG (SDFG narrs cs sts ces)) # rest) ms =
     (case fpga_update_states narrs sts (Suc depth) of
        Inl e \<Rightarrow> Inl e
      | Inr (narrs', sts') \<Rightarrow>
          (case fpga_update_nodes arrs sd depth rest ms of
             Inl e \<Rightarrow> Inl e
           | Inr (arrs', rest', ms') \<Rightarrow>
               Inr (arrs', (i, NestedSDFG (SDFG narrs' cs sts' ces)) # rest', ms')))"
| "fpga_update_states arrs [] depth = Inr (arrs, [])"
| "fpga_update_states arrs (s # ss) depth =
     (case fpga_update arrs s depth of
        Inl e \<Rightarrow> Inl e
      | Inr (arrs1, s') \<Rightarrow>
          (case fpga_update_states arrs1 ss depth of
             Inl e \<Rightarrow> Inl e
           | Inr (arrs', ss') \<Rightarrow> Inr (arrs', s' # ss')))"

section \<open>Applicability: \<^verbatim>\<open>FPGATransformState.can_be_applied\<close>\<close>

text \<open>
  The walk up the enclosing scopes is a \<^verbatim>\<open>while\<close> loop over the scope
  dictionary, which nothing in the source bounds: it is a partial function, and not
  returning is the value \<open>None\<close>. \<^verbatim>\<open>current_node.map\<close> exists on map entry and
  exit nodes and is an AttributeError elsewhere. The walk yields \<open>True\<close> when it
  leaves the loop without returning \<^verbatim>\<open>False\<close>.
\<close>

definition node_map :: "state \<Rightarrow> nat \<Rightarrow> error + map_obj" where
  "node_map st i =
     (case node_of st i of
        Some (MapEntry m) \<Rightarrow> Inr (maps st m)
      | Some (MapExit m) \<Rightarrow> Inr (maps st m)
      | _ \<Rightarrow> Inl AttributeError)"

definition accel_schedule :: "ScheduleType \<Rightarrow> bool" where
  "accel_schedule s = (s = GPU_Device \<or> s = FPGA_Device \<or> s = GPU_ThreadBlock)"

definition disallowed_schedule :: "ScheduleType \<Rightarrow> bool" where
  "disallowed_schedule s = (s = MPI \<or> s = GPU_Device \<or> s = FPGA_Device \<or> s = GPU_ThreadBlock)"

partial_function (option) scope_walk :: "state \<Rightarrow> nat option \<Rightarrow> (error + bool) option" where
  "scope_walk st current_node =
     (case current_node of
        None \<Rightarrow> Some (Inr True)
      | Some i \<Rightarrow>
          (case node_map st i of
             Inl e \<Rightarrow> Some (Inl e)
           | Inr m \<Rightarrow>
               if accel_schedule (schedule m) then Some (Inr False)
               else scope_walk st (sdict st i)))"

declare scope_walk.simps [code]

fun can_be_applied_nodes :: "catalog \<Rightarrow> state \<Rightarrow> (nat \<times> node) list \<Rightarrow> (error + bool) option" where
  "can_be_applied_nodes arrs st [] = Some (Inr True)"
| "can_be_applied_nodes arrs st ((i, AccessNode a) # rest) =
     (case lookup_desc arrs a of
        Inl e \<Rightarrow> Some (Inl e)
      | Inr d \<Rightarrow>
          if storage d \<noteq> Storage_Default then Some (Inr False)
          else can_be_applied_nodes arrs st rest)"
| "can_be_applied_nodes arrs st ((i, MapEntry m) # rest) =
     (let candidate_map = maps st m in
      if length (map_range candidate_map) > 3 then Some (Inr False)
      else if disallowed_schedule (schedule candidate_map) then Some (Inr False)
      else if accel_schedule (schedule candidate_map) then Some (Inr False)
      else
        (case scope_walk st (sdict st i) of
           None \<Rightarrow> None
         | Some (Inl e) \<Rightarrow> Some (Inl e)
         | Some (Inr ok) \<Rightarrow>
             if ok then can_be_applied_nodes arrs st rest else Some (Inr False)))"
| "can_be_applied_nodes arrs st ((i, n) # rest) = can_be_applied_nodes arrs st rest"

definition can_be_applied :: "sdfg \<Rightarrow> nat \<Rightarrow> sdfg \<Rightarrow> (error + bool) option" where
  "can_be_applied graph candidate g =
     (if candidate < length (states graph)
      then can_be_applied_nodes (arrays g) (states graph ! candidate)
             (nodes (states graph ! candidate))
      else Some (Inl IndexError))"


section \<open>The rewrite: \<^verbatim>\<open>FPGATransformState.apply\<close>\<close>

subsection \<open>Input nodes written with conflict resolution\<close>

text \<open>
  The work list holds pairs \<^verbatim>\<open>(node, graph)\<close>. With each pair the embedding
  keeps \<^verbatim>\<open>graph.parent.parent\<close>, the state that owns the nested SDFG of
  \<^verbatim>\<open>graph\<close> (\<open>None\<close> at the top level), and the state that really holds the
  node, which becomes \<^verbatim>\<open>graph.parent.parent\<close> of the states below it. The top of
  the stack is the head of the list. \<^verbatim>\<open>e.dst.data\<close> is an AttributeError when
  the destination is no access node; it is evaluated once for every edge of the
  parent state.
\<close>

type_synonym wcr_item = "nat \<times> node \<times> state \<times> state option \<times> state"

fun wcr_parent_edges :: "state \<Rightarrow> state \<Rightarrow> edge \<Rightarrow> edge list \<Rightarrow> error + (nat \<times> node) list" where
  "wcr_parent_edges graph parent_state e [] = Inr []"
| "wcr_parent_edges graph parent_state e (parent_edges # rest) =
     (case node_of graph (dst e) of
        Some (AccessNode a) \<Rightarrow>
          (if src_conn parent_edges = Some a
              \<or> is_access (node_of parent_state (dst parent_edges)) a
           then
             (case node_of parent_state (dst parent_edges) of
                None \<Rightarrow> Inl KeyError
              | Some n \<Rightarrow>
                  (case wcr_parent_edges graph parent_state e rest of
                     Inl err \<Rightarrow> Inl err
                   | Inr found \<Rightarrow> Inr ((dst parent_edges, n) # found)))
           else wcr_parent_edges graph parent_state e rest)
      | _ \<Rightarrow> Inl AttributeError)"

fun wcr_node_edges :: "state \<Rightarrow> state option \<Rightarrow> edge list \<Rightarrow> error + (nat \<times> node) list" where
  "wcr_node_edges graph parent [] = Inr []"
| "wcr_node_edges graph parent (e # es) =
     (if wcr (e_data e) \<noteq> None then
        (case parent of
           None \<Rightarrow> wcr_node_edges graph parent es
         | Some parent_state \<Rightarrow>
             (case wcr_parent_edges graph parent_state e (edges parent_state) of
                Inl err \<Rightarrow> Inl err
              | Inr found \<Rightarrow>
                  (case wcr_node_edges graph parent es of
                     Inl err \<Rightarrow> Inl err
                   | Inr others \<Rightarrow> Inr (found @ others))))
      else wcr_node_edges graph parent es)"

definition nested_items :: "state \<Rightarrow> sdfg \<Rightarrow> wcr_item list" where
  "nested_items owner g =
     concat (map (\<lambda>instate. map (\<lambda>(j, n). (j, n, instate, Some owner, instate)) (nodes instate))
               (states g))"

definition items_weight :: "wcr_item list \<Rightarrow> nat" where
  "items_weight stack = sum_list (map (\<lambda>(j, n, rest). Suc (size n)) stack)"


lemma items_weight_append: "items_weight (xs @ ys) = items_weight xs + items_weight ys"
  by (simp add: items_weight_def)

lemma items_weight_rev: "items_weight (rev xs) = items_weight xs"
  by (simp add: items_weight_def rev_map[symmetric])

lemma items_weight_state:
  "items_weight (map (\<lambda>(j, n). (j, n, instate, Some owner, instate)) ns)
     \<le> size_list (size_prod (\<lambda>_. 0) size) ns"
  by (induction ns) (auto simp: items_weight_def)

lemma items_weight_states:
  "items_weight
     (concat (map (\<lambda>instate. map (\<lambda>(j, n). (j, n, instate, Some owner, instate)) (nodes instate)) sts))
     \<le> size_list size sts"
proof (induction sts)
  case Nil
  then show ?case by (simp add: items_weight_def)
next
  case (Cons st sts)
  have "items_weight (map (\<lambda>(j, n). (j, n, st, Some owner, st)) (nodes st)) \<le> size st"
    using items_weight_state[of st owner "nodes st"] by (cases st) simp
  with Cons show ?case by (simp add: items_weight_append)
qed

lemma items_weight_nested: "items_weight (nested_items owner g) \<le> size g"
  using items_weight_states[of owner "states g"] by (cases g) (simp add: nested_items_def)

function wcr_scan :: "wcr_item list \<Rightarrow> (nat \<times> node) list \<Rightarrow> error + (nat \<times> node) list" where
  "wcr_scan [] found = Inr found"
| "wcr_scan ((i, NestedSDFG g, graph, parent, owner) # stack) found =
     wcr_scan (rev (nested_items owner g) @ stack) found"
| "wcr_scan ((i, AccessNode a, graph, parent, owner) # stack) found =
     (case wcr_node_edges graph parent (all_edges graph i) of
        Inl err \<Rightarrow> Inl err
      | Inr others \<Rightarrow> wcr_scan stack (found @ others))"
| "wcr_scan ((i, MapEntry m, graph, parent, owner) # stack) found = wcr_scan stack found"
| "wcr_scan ((i, MapExit m, graph, parent, owner) # stack) found = wcr_scan stack found"
| "wcr_scan ((i, Tasklet t, graph, parent, owner) # stack) found = wcr_scan stack found"
  by pat_completeness auto
termination
proof (relation "measure (\<lambda>(stack, found). items_weight stack)")
  fix i g graph parent owner stack and found :: "(nat \<times> node) list"
  show "((rev (nested_items owner g) @ stack, found), (i, NestedSDFG g, graph, parent, owner) # stack, found)
        \<in> measure (\<lambda>(stack, found). items_weight stack)"
    using items_weight_nested[of owner g]
    by (simp add: items_weight_append items_weight_rev) (simp add: items_weight_def)
qed (simp_all add: items_weight_def)

text \<open>
  \<^verbatim>\<open>for sg in sdfg: stack += [(n, sg) for n in state.nodes()]\<close> pairs the nodes of
  the matched state with every state of the graph in turn. The graph handed to
  \<^verbatim>\<open>apply\<close> is taken to be a top-level one, whose states have no
  \<^verbatim>\<open>parent.parent\<close>.
\<close>

definition initial_items :: "sdfg \<Rightarrow> state \<Rightarrow> wcr_item list" where
  "initial_items g st =
     concat (map (\<lambda>sg. map (\<lambda>(j, n). (j, n, sg, None, st)) (nodes st)) (states g))"

subsection \<open>Staging states\<close>

text \<open>
  New nodes are new Python objects: their identities come from a counter that starts
  above every identity in the graph. \<^verbatim>\<open>fpga_data\<close> is kept as the list of its
  keys. \<^verbatim>\<open>sdfg.add_array\<close> builds an array descriptor from the arguments the
  source passes, with an empty location map and the product of the shape as total
  size.
\<close>

fun ids_nodes :: "(nat \<times> node) list \<Rightarrow> nat list"
and ids_states :: "state list \<Rightarrow> nat list" where
  "ids_nodes [] = []"
| "ids_nodes ((i, NestedSDFG (SDFG arrs cs sts ces)) # rest) = i # ids_states sts @ ids_nodes rest"
| "ids_nodes ((i, n) # rest) = i # ids_nodes rest"
| "ids_states [] = []"
| "ids_states (SDFGState l ns es ms sd # ss) = ids_nodes ns @ ids_states ss"

definition fresh_id :: "sdfg \<Rightarrow> nat" where
  "fresh_id g = Suc (fold max (ids_states (states g)) 0)"

definition proxy_desc :: "desc \<Rightarrow> desc" where
  "proxy_desc array =
     \<lparr>kind = Array, shape = shape array, dtype = dtype array, transient = True,
      storage = FPGA_Global, strides = strides array, offset = offset array,
      allow_conflicts = allow_conflicts array, access_order = access_order array,
      materialize_func = materialize_func array, location = Map.empty,
      total_size = prod_expr (shape array)\<rparr>"

definition copy_memlet :: "string \<Rightarrow> desc \<Rightarrow> memlet" where
  "copy_memlet name array =
     \<lparr>m_data = Some name, num_accesses = num_elements (full_range (shape array)),
      m_subset = full_range (shape array), veclen = 1, wcr = None\<rparr>"

record rewrite =
  r_arrays :: catalog
  r_state :: state
  r_next :: nat
  r_fpga_data :: "string list"

definition proxy_for :: "bool \<Rightarrow> string \<Rightarrow> desc \<Rightarrow> rewrite \<Rightarrow> error + (catalog \<times> string list)" where
  "proxy_for create a array r =
     (if a \<in> set (r_fpga_data r) then Inr (r_arrays r, r_fpga_data r)
      else if create then
        (case add_array (r_arrays r) (''fpga_'' @ a) (proxy_desc array) of
           Inl e \<Rightarrow> Inl e
         | Inr arrs \<Rightarrow> Inr (arrs, r_fpga_data r @ [a]))
      else Inr (r_arrays r, r_fpga_data r))"

definition pre_copy :: "state \<Rightarrow> nat \<Rightarrow> string \<Rightarrow> desc \<Rightarrow> state" where
  "pre_copy pre_state k a array =
     (let pre_node = k; pre_fpga_node = k + 1 in
      add_edge
        (add_node (add_node pre_state (pre_node, AccessNode a))
           (pre_fpga_node, AccessNode (''fpga_'' @ a)))
        \<lparr>src = pre_node, src_conn = None, dst = pre_fpga_node, dst_conn = None,
         e_data = copy_memlet a array\<rparr>)"

definition post_copy :: "state \<Rightarrow> nat \<Rightarrow> string \<Rightarrow> desc \<Rightarrow> state" where
  "post_copy post_state k a array =
     (let post_node = k; post_fpga_node = k + 1 in
      add_edge
        (add_node (add_node post_state (post_node, AccessNode a))
           (post_fpga_node, AccessNode (''fpga_'' @ a)))
        \<lparr>src = post_fpga_node, src_conn = None, dst = post_node, dst_conn = None,
         e_data = copy_memlet (''fpga_'' @ a) array\<rparr>)"

fun pre_loop :: "nat list \<Rightarrow> (nat \<times> node) list \<Rightarrow> rewrite \<Rightarrow> state \<Rightarrow> error + (rewrite \<times> state)" where
  "pre_loop wcr_input_nodes [] r pre_state = Inr (r, pre_state)"
| "pre_loop wcr_input_nodes ((i, AccessNode a) # rest) r pre_state =
     (case lookup_desc (r_arrays r) a of
        Inl e \<Rightarrow> Inl e
      | Inr array \<Rightarrow>
          if kind array \<noteq> Array then pre_loop wcr_input_nodes rest r pre_state
          else
            (case proxy_for (i \<notin> set wcr_input_nodes) a array r of
               Inl e \<Rightarrow> Inl e
             | Inr (arrs, fd) \<Rightarrow>
                 (let pre' = pre_copy pre_state (r_next r) a array in
                  if i \<notin> set wcr_input_nodes then
                    (let fpga_node = r_next r + 2 in
                     case remove_node
                            (change_edge_src
                               (add_node (r_state r) (fpga_node, AccessNode (''fpga_'' @ a)))
                               i fpga_node) i of
                       Inl e \<Rightarrow> Inl e
                     | Inr st' \<Rightarrow>
                         pre_loop wcr_input_nodes rest
                           \<lparr>r_arrays = arrs, r_state = st', r_next = r_next r + 3,
                            r_fpga_data = fd\<rparr> pre')
                  else
                    pre_loop wcr_input_nodes rest
                      \<lparr>r_arrays = arrs, r_state = r_state r, r_next = r_next r + 2,
                       r_fpga_data = fd\<rparr> pre')))"
| "pre_loop wcr_input_nodes ((i, n) # rest) r pre_state = pre_loop wcr_input_nodes rest r pre_state"

fun post_loop :: "(nat \<times> node) list \<Rightarrow> rewrite \<Rightarrow> state \<Rightarrow> error + (rewrite \<times> state)" where
  "post_loop [] r post_state = Inr (r, post_state)"
| "post_loop ((i, AccessNode a) # rest) r post_state =
     (case lookup_desc (r_arrays r) a of
        Inl e \<Rightarrow> Inl e
      | Inr array \<Rightarrow>
          if kind array \<noteq> Array then post_loop rest r post_state
          else
            (case proxy_for True a array r of
               Inl e \<Rightarrow> Inl e
             | Inr (arrs, fd) \<Rightarrow>
                 (let post' = post_copy post_state (r_next r) a array;
                      fpga_node = r_next r + 2 in
                  case remove_node
                         (change_edge_dest
                            (add_node (r_state r) (fpga_node, AccessNode (''fpga_'' @ a)))
                            i fpga_node) i of
                    Inl e \<Rightarrow> Inl e
                  | Inr st' \<Rightarrow>
                      post_loop rest
                        \<lparr>r_arrays = arrs, r_state = st', r_next = r_next r + 3,
                         r_fpga_data = fd\<rparr> post')))"
| "post_loop ((i, n) # rest) r post_state = post_loop rest r post_state"

subsection \<open>Vector widths read from nested graphs\<close>

text \<open>
  \<^verbatim>\<open>veclen_\<close> is a local variable of \<^verbatim>\<open>apply\<close> that the loop over the edges
  never resets: it is threaded through the loop as an option, \<open>None\<close> while it is
  unbound, and reading it unbound is an UnboundLocalError.
  \<^verbatim>\<open>inner_state.all_edges(n)[0]\<close> is an IndexError on a node without edges.
\<close>

fun inner_veclen_nodes :: "state \<Rightarrow> string option \<Rightarrow> (nat \<times> node) list \<Rightarrow> int option \<Rightarrow> error + int option" where
  "inner_veclen_nodes inner_state conn [] v = Inr v"
| "inner_veclen_nodes inner_state conn ((i, AccessNode a) # rest) v =
     (if Some a = conn then
        (case all_edges inner_state i of
           [] \<Rightarrow> Inl IndexError
         | e # es \<Rightarrow> inner_veclen_nodes inner_state conn rest (Some (veclen (e_data e))))
      else inner_veclen_nodes inner_state conn rest v)"
| "inner_veclen_nodes inner_state conn ((i, n) # rest) v = inner_veclen_nodes inner_state conn rest v"

fun inner_veclen_states :: "string option \<Rightarrow> state list \<Rightarrow> int option \<Rightarrow> error + int option" where
  "inner_veclen_states conn [] v = Inr v"
| "inner_veclen_states conn (inner_state # rest) v =
     (case inner_veclen_nodes inner_state conn (nodes inner_state) v of
        Inl e \<Rightarrow> Inl e
      | Inr v' \<Rightarrow> inner_veclen_states conn rest v')"

definition nested_veclen :: "state \<Rightarrow> nat \<Rightarrow> string option \<Rightarrow> int option \<Rightarrow> error + int option" where
  "nested_veclen st i conn v =
     (case node_of st i of
        Some (NestedSDFG g) \<Rightarrow> inner_veclen_states conn (states g) v
      | _ \<Rightarrow> Inr v)"

definition rewrite_memlet :: "string list \<Rightarrow> edge \<Rightarrow> int option \<Rightarrow> error + edge" where
  "rewrite_memlet fpga_data e v =
     (case m_data (e_data e) of
        None \<Rightarrow> Inr e
      | Some d \<Rightarrow>
          if d \<in> set fpga_data then
            (case v of
               None \<Rightarrow> Inl UnboundLocalError
             | Some w \<Rightarrow> Inr (e\<lparr>e_data := (e_data e)\<lparr>m_data := Some (''fpga_'' @ d), veclen := w\<rparr>\<rparr>))
          else Inr e)"

fun propagate_veclen :: "state \<Rightarrow> string list \<Rightarrow> edge list \<Rightarrow> int option \<Rightarrow> error + edge list" where
  "propagate_veclen st fpga_data [] v = Inr []"
| "propagate_veclen st fpga_data (e # es) v =
     (case nested_veclen st (dst e) (dst_conn e) v of
        Inl err \<Rightarrow> Inl err
      | Inr v1 \<Rightarrow>
          (case nested_veclen st (src e) (src_conn e) v1 of
             Inl err \<Rightarrow> Inl err
           | Inr v2 \<Rightarrow>
               (case rewrite_memlet fpga_data e v2 of
                  Inl err \<Rightarrow> Inl err
                | Inr e' \<Rightarrow>
                    (case propagate_veclen st fpga_data es v2 of
                       Inl err \<Rightarrow> Inl err
                     | Inr es' \<Rightarrow> Inr (e' # es')))))"

subsection \<open>The whole rewrite\<close>

definition redirect_dest :: "interstate_edge list \<Rightarrow> nat \<Rightarrow> nat \<Rightarrow> interstate_edge list" where
  "redirect_dest ces a b = map (\<lambda>e. if ie_dst e = a then e\<lparr>ie_dst := b\<rparr> else e) ces"

definition redirect_src :: "interstate_edge list \<Rightarrow> nat \<Rightarrow> nat \<Rightarrow> interstate_edge list" where
  "redirect_src ces a b = map (\<lambda>e. if ie_src e = a then e\<lparr>ie_src := b\<rparr> else e) ces"

definition InterstateEdge :: "nat \<Rightarrow> nat \<Rightarrow> interstate_edge" where
  "InterstateEdge a b = \<lparr>ie_src = a, ie_dst = b, ie_condition = None, ie_assignments = []\<rparr>"

definition stage_inputs ::
  "nat \<Rightarrow> nat list \<Rightarrow> (nat \<times> node) list \<Rightarrow> rewrite \<times> state list \<times> interstate_edge list
    \<Rightarrow> error + (rewrite \<times> state list \<times> interstate_edge list)" where
  "stage_inputs idx wcr_input_nodes input_nodes ctx =
     (case ctx of (r, sts, ces) \<Rightarrow>
        if input_nodes \<noteq> [] then
          (case pre_loop wcr_input_nodes input_nodes r (empty_state (''pre_'' @ label (r_state r))) of
             Inl e \<Rightarrow> Inl e
           | Inr (r', pre_state) \<Rightarrow>
               Inr (r', sts @ [pre_state],
                    redirect_dest ces idx (length sts) @ [InterstateEdge (length sts) idx]))
        else Inr (r, sts, ces))"

definition stage_outputs ::
  "nat \<Rightarrow> (nat \<times> node) list \<Rightarrow> rewrite \<times> state list \<times> interstate_edge list
    \<Rightarrow> error + (rewrite \<times> state list \<times> interstate_edge list)" where
  "stage_outputs idx output_nodes ctx =
     (case ctx of (r, sts, ces) \<Rightarrow>
        if output_nodes \<noteq> [] then
          (case post_loop output_nodes r (empty_state (''post_'' @ label (r_state r))) of
             Inl e \<Rightarrow> Inl e
           | Inr (r', post_state) \<Rightarrow>
               Inr (r', sts @ [post_state],
                    redirect_src ces idx (length sts) @ [InterstateEdge idx (length sts)]))
        else Inr (r, sts, ces))"

definition lower_state :: "rewrite \<Rightarrow> error + (catalog \<times> state)" where
  "lower_state r =
     (let st = r_state r in
      case propagate_veclen st (r_fpga_data r) (edges st) None of
        Inl e \<Rightarrow> Inl e
      | Inr es \<Rightarrow>
          fpga_update (r_arrays r) (SDFGState (label st) (nodes st) es (maps st) (sdict st)) 0)"

definition FPGATransformState_apply :: "sdfg \<Rightarrow> nat \<Rightarrow> error + sdfg" where
  "FPGATransformState_apply g idx =
     (if idx < length (states g) then
        (let st = states g ! idx;
             input_nodes = find_source_nodes st;
             output_nodes = find_sink_nodes st in
         case wcr_scan (rev (initial_items g st)) [] of
           Inl e \<Rightarrow> Inl e
         | Inr found \<Rightarrow>
             (case stage_inputs idx (map fst found) (input_nodes @ found)
                     (\<lparr>r_arrays = arrays g, r_state = st, r_next = fresh_id g, r_fpga_data = []\<rparr>,
                      states g, cedges g) of
                Inl e \<Rightarrow> Inl e
              | Inr ctx1 \<Rightarrow>
                  (case stage_outputs idx output_nodes ctx1 of
                     Inl e \<Rightarrow> Inl e
                   | Inr (r2, sts2, ces2) \<Rightarrow>
                       (case lower_state r2 of
                          Inl e \<Rightarrow> Inl e
                        | Inr (arrs, st') \<Rightarrow>
                            Inr (SDFG arrs (constants g) (sts2[idx := st']) ces2)))))
      else Inl IndexError)"


section \<open>Demotion of unshared transients: \<^verbatim>\<open>fpga_global_to_local\<close>\<close>

text \<open>
  Modelled from the spec: \<^verbatim>\<open>symbolic.resolve_symbol_to_constant\<close>, which is not
  among the source files. It returns the constant an expression denotes when every
  free symbol is bound in the symbol bindings of the graph, and reports it unresolved
  (\<open>None\<close>) otherwise.
\<close>

fun resolve :: "(string \<rightharpoonup> int) \<Rightarrow> symexpr \<Rightarrow> int option" where
  "resolve b (Const c) = Some c"
| "resolve b (Sym x) = b x"
| "resolve b (Add x y) =
     (case resolve b x of None \<Rightarrow> None
      | Some u \<Rightarrow> (case resolve b y of None \<Rightarrow> None | Some v \<Rightarrow> Some (u + v)))"
| "resolve b (Sub x y) =
     (case resolve b x of None \<Rightarrow> None
      | Some u \<Rightarrow> (case resolve b y of None \<Rightarrow> None | Some v \<Rightarrow> Some (u - v)))"
| "resolve b (Mul x y) =
     (case resolve b x of None \<Rightarrow> None
      | Some u \<Rightarrow> (case resolve b y of None \<Rightarrow> None | Some v \<Rightarrow> Some (u * v)))"

definition resolve_symbol_to_constant :: "symexpr \<Rightarrow> sdfg \<Rightarrow> int option" where
  "resolve_symbol_to_constant e g = resolve (map_of (constants g)) e"

text \<open>
  Modelled from the spec: \<^verbatim>\<open>sdfg.shared_transients()\<close>, which is not among the
  source files: the transients that are referenced from more than one state.
\<close>

definition state_references :: "state \<Rightarrow> string \<Rightarrow> bool" where
  "state_references st name = list_ex (\<lambda>(i, n). is_access (Some n) name) (nodes st)"

definition shared_transients :: "sdfg \<Rightarrow> string list" where
  "shared_transients g =
     map fst (filter (\<lambda>(name, d). transient d
                        \<and> 2 \<le> length (filter (\<lambda>st. state_references st name) (states g)))
                (arrays g))"

text \<open>
  \<^verbatim>\<open>trace_nested_access\<close> is not among the source files and the spec says of it
  only that it follows the boundaries of nested graphs, so it is a parameter: for the
  state at a position of the hierarchy (the indices of the states and the identities
  of the nested SDFG nodes on the way down, ending with the index of the state) and a
  node of that state, it gives the data name of the candidate of every scope of the
  trace, \<open>None\<close> where the candidate is \<^verbatim>\<open>None\<close>.
  \<^verbatim>\<open>sdfg.all_nodes_recursive()\<close> visits every node of every state and descends
  into the nested graphs; \<^verbatim>\<open>node.desc(graph)\<close> is the entry of the node's data in
  the catalog of the graph that owns the state.
\<close>

type_synonym tracer = "nat list \<Rightarrow> nat \<Rightarrow> string option list"

fun retag_nodes ::
  "tracer \<Rightarrow> string \<Rightarrow> nat list \<Rightarrow> catalog \<Rightarrow> (nat \<times> node) list \<Rightarrow> error + (catalog \<times> (nat \<times> node) list)"
and retag_states ::
  "tracer \<Rightarrow> string \<Rightarrow> nat list \<Rightarrow> nat \<Rightarrow> catalog \<Rightarrow> state list \<Rightarrow> error + (catalog \<times> state list)"
where
  "retag_nodes tr name path arrs [] = Inr (arrs, [])"
| "retag_nodes tr name path arrs ((i, AccessNode a) # rest) =
     (if Some name \<in> set (tr path i) then
        (case lookup_desc arrs a of
           Inl e \<Rightarrow> Inl e
         | Inr nodedesc \<Rightarrow>
             (case retag_nodes tr name path (set_storage a FPGA_Local arrs) rest of
                Inl e \<Rightarrow> Inl e
              | Inr (arrs', rest') \<Rightarrow> Inr (arrs', (i, AccessNode a) # rest')))
      else
        (case retag_nodes tr name path arrs rest of
           Inl e \<Rightarrow> Inl e
         | Inr (arrs', rest') \<Rightarrow> Inr (arrs', (i, AccessNode a) # rest')))"
| "retag_nodes tr name path arrs ((i, NestedSDFG (SDFG narrs cs sts ces)) # rest) =
     (case retag_states tr name (path @ [i]) 0 narrs sts of
        Inl e \<Rightarrow> Inl e
      | Inr (narrs', sts') \<Rightarrow>
          (case retag_nodes tr name path arrs rest of
             Inl e \<Rightarrow> Inl e
           | Inr (arrs', rest') \<Rightarrow>
               Inr (arrs', (i, NestedSDFG (SDFG narrs' cs sts' ces)) # rest')))"
| "retag_nodes tr name path arrs ((i, n) # rest) =
     (case retag_nodes tr name path arrs rest of
        Inl e \<Rightarrow> Inl e
      | Inr (arrs', rest') \<Rightarrow> Inr (arrs', (i, n) # rest'))"
| "retag_states tr name prefix k arrs [] = Inr (arrs, [])"
| "retag_states tr name prefix k arrs (SDFGState l ns es ms sd # ss) =
     (case retag_nodes tr name (prefix @ [k]) arrs ns of
        Inl e \<Rightarrow> Inl e
      | Inr (arrs1, ns') \<Rightarrow>
          (case retag_states tr name prefix (Suc k) arrs1 ss of
             Inl e \<Rightarrow> Inl e
           | Inr (arrs', ss') \<Rightarrow> Inr (arrs', SDFGState l ns' es ms sd # ss')))"

fun g2l_loop :: "tracer \<Rightarrow> string list \<Rightarrow> sdfg \<Rightarrow> nat \<Rightarrow> error + (sdfg \<times> nat)" where
  "g2l_loop tr [] g count = Inr (g, count)"
| "g2l_loop tr (name # names) g count =
     (case map_of (arrays g) name of
        None \<Rightarrow> g2l_loop tr names g count
      | Some d \<Rightarrow>
          if transient d \<and> name \<notin> set (shared_transients g) \<and> storage d = FPGA_Global then
            (case resolve_symbol_to_constant (total_size d) g of
               None \<Rightarrow> g2l_loop tr names g count
             | Some total_size_value \<Rightarrow>
                 (case retag_states tr name [] 0 (set_storage name FPGA_Local (arrays g)) (states g) of
                    Inl e \<Rightarrow> Inl e
                  | Inr (arrs', sts') \<Rightarrow>
                      g2l_loop tr names (SDFG arrs' (constants g) sts' (cedges g)) (count + 1)))
          else g2l_loop tr names g count)"

text \<open>
  The function has no \<^verbatim>\<open>return\<close> statement: its value is \<^verbatim>\<open>None\<close>. What it
  prints is kept as a list of lines; \<open>debugprint\<close> is the configuration entry
  \<^verbatim>\<open>config.Config.get_bool('debugprint')\<close>.
\<close>

fun show_nat :: "nat \<Rightarrow> string" where
  "show_nat n =
     (if n < 10 then [char_of (48 + n)] else show_nat (n div 10) @ [char_of (48 + n mod 10)])"

record g2l_outcome =
  g2l_graph :: sdfg
  g2l_return :: "nat option"
  g2l_printed :: "string list"

definition fpga_global_to_local :: "tracer \<Rightarrow> bool \<Rightarrow> sdfg \<Rightarrow> error + g2l_outcome" where
  "fpga_global_to_local tr debugprint g =
     (case g2l_loop tr (map fst (arrays g)) g 0 of
        Inl e \<Rightarrow> Inl e
      | Inr (g', count) \<Rightarrow>
          Inr \<lparr>g2l_graph = g', g2l_return = None,
               g2l_printed =
                 (if debugprint then [''Applied '' @ show_nat count @ '' Global-To-Local.''] else [])\<rparr>)"

section \<open>Predicates of the claims and concrete graphs\<close>

subsection \<open>Bank interleaving\<close>

definition is_global :: "string \<times> desc \<Rightarrow> bool" where
  "is_global nd = (storage (snd nd) = FPGA_Global)"

definition rr_target :: "int \<Rightarrow> nat \<Rightarrow> desc \<Rightarrow> desc" where
  "rr_target B i d =
     (if storage d = FPGA_Global then d\<lparr>location := (location d)(''bank'' \<mapsto> int i mod B)\<rparr> else d)"

fun rr_assign :: "int \<Rightarrow> nat \<Rightarrow> catalog \<Rightarrow> catalog" where
  "rr_assign B i [] = []"
| "rr_assign B i ((n, d) # rest) = (n, rr_target B i d) # rr_assign B (Suc i) rest"

definition host_array :: desc where
  "host_array =
     \<lparr>kind = Array, shape = [Const 4], dtype = ''float32'', transient = False,
      storage = Storage_Default, strides = [Const 1], offset = [Const 0],
      allow_conflicts = False, access_order = None, materialize_func = None,
      location = Map.empty, total_size = Const 4\<rparr>"

definition global_array :: desc where
  "global_array = host_array\<lparr>transient := True, storage := FPGA_Global\<rparr>"

definition g_five :: sdfg where
  "g_five =
     SDFG [(''a0'', global_array), (''a1'', global_array), (''a2'', global_array),
           (''a3'', global_array), (''a4'', global_array)] [] [] []"

text \<open>
  The number of accelerator-global arrays whose position in the whole catalog, counted
  from \<open>i\<close>, falls on bank \<open>k\<close>; and a catalog with a host array between two
  accelerator-global ones.
\<close>

definition bank_load :: "int \<Rightarrow> nat \<Rightarrow> catalog \<Rightarrow> nat \<Rightarrow> int" where
  "bank_load B i arrs k =
     int (length (filter (\<lambda>j. is_global (arrs ! j) \<and> int (i + j) mod B = int k) [0..<length arrs]))"

definition g_mixed :: sdfg where
  "g_mixed = SDFG [(''a0'', global_array), (''h'', host_array), (''a2'', global_array)] [] [] []"

subsection \<open>Applicability\<close>

text \<open>
  The enclosing scopes of a node are its parent in the scope dictionary and the
  enclosing scopes of that parent. The gating condition of the claim is stated for
  any two sets of schedules: the set a map itself must avoid and the set its
  enclosing scopes must avoid. In the spec MPI-distributed is \<^verbatim>\<open>MPI\<close>,
  accelerator-device is the tag the reclassification assigns, \<^verbatim>\<open>FPGA_Device\<close>,
  and accelerator-threadblock is \<^verbatim>\<open>GPU_ThreadBlock\<close>; \<^verbatim>\<open>GPU_Device\<close> is
  what the spec calls the other accelerator.
\<close>

inductive ancestor :: "state \<Rightarrow> nat \<Rightarrow> nat \<Rightarrow> bool" for st where
  ancestor_parent: "sdict st i = Some p \<Longrightarrow> ancestor st i p"
| ancestor_step: "sdict st i = Some q \<Longrightarrow> ancestor st q p \<Longrightarrow> ancestor st i p"

definition scope_has :: "state \<Rightarrow> (ScheduleType \<Rightarrow> bool) \<Rightarrow> nat \<Rightarrow> bool" where
  "scope_has st P p = (case node_map st p of Inl e \<Rightarrow> False | Inr mo \<Rightarrow> P (schedule mo))"

definition node_gated ::
  "(ScheduleType \<Rightarrow> bool) \<Rightarrow> (ScheduleType \<Rightarrow> bool) \<Rightarrow> catalog \<Rightarrow> state \<Rightarrow> nat \<times> node \<Rightarrow> bool" where
  "node_gated dis acc arrs st x =
     (case snd x of
        AccessNode a \<Rightarrow> (case map_of arrs a of None \<Rightarrow> False | Some d \<Rightarrow> storage d \<noteq> Storage_Default)
      | MapEntry m \<Rightarrow>
          length (map_range (maps st m)) > 3
          \<or> dis (schedule (maps st m))
          \<or> (\<exists>p. ancestor st (fst x) p \<and> scope_has st acc p)
      | _ \<Rightarrow> False)"

definition gated ::
  "(ScheduleType \<Rightarrow> bool) \<Rightarrow> (ScheduleType \<Rightarrow> bool) \<Rightarrow> catalog \<Rightarrow> state \<Rightarrow> bool" where
  "gated dis acc arrs st = list_ex (node_gated dis acc arrs st) (nodes st)"

definition claimed_disallowed :: "ScheduleType \<Rightarrow> bool" where
  "claimed_disallowed s = (s = MPI \<or> s = FPGA_Device \<or> s = GPU_ThreadBlock)"

definition claimed_accel :: "ScheduleType \<Rightarrow> bool" where
  "claimed_accel s = (s = FPGA_Device \<or> s = GPU_ThreadBlock)"

text \<open>
  What the library guarantees of a state: every access node names a descriptor of
  the catalog, and the scope dictionary is a forest of map entries (\<open>rank\<close> bounds
  the way up).
\<close>

definition descs_present :: "catalog \<Rightarrow> state \<Rightarrow> bool" where
  "descs_present arrs st = list_all (\<lambda>(i, n). case n of AccessNode a \<Rightarrow> map_of arrs a \<noteq> None | _ \<Rightarrow> True) (nodes st)"

definition scopes_wf :: "(nat \<Rightarrow> nat) \<Rightarrow> state \<Rightarrow> bool" where
  "scopes_wf rank st =
     (\<forall>i p. sdict st i = Some p \<longrightarrow> rank p < rank i \<and> (\<exists>m. node_of st p = Some (MapEntry m)))"

definition no_maps :: "nat \<Rightarrow> map_obj" where
  "no_maps = (\<lambda>_. \<lparr>map_range = [], schedule = Schedule_Default\<rparr>)"

definition unscoped :: "nat \<Rightarrow> nat option" where
  "unscoped = (\<lambda>_. None)"

definition st_gpu :: state where
  "st_gpu =
     SDFGState ''s0'' [(0, MapEntry 0), (1, Tasklet ''t''), (2, MapExit 0)] []
       (no_maps(0 := \<lparr>map_range = [(Const 0, Sym ''N'', Const 1)], schedule = GPU_Device\<rparr>))
       (unscoped(1 := Some 0))"

definition g_gpu :: sdfg where
  "g_gpu = SDFG [] [] [st_gpu] []"

definition st_nest :: state where
  "st_nest =
     SDFGState ''s0''
       [(0, AccessNode ''X''), (1, MapEntry 0), (2, MapEntry 1), (3, Tasklet ''t''),
        (4, MapExit 1), (5, MapExit 0)] []
       (no_maps(0 := \<lparr>map_range = [(Const 0, Sym ''N'', Const 1)], schedule = Sequential\<rparr>,
                1 := \<lparr>map_range = [(Const 0, Sym ''M'', Const 1)], schedule = Schedule_Default\<rparr>))
       (unscoped(2 := Some 1, 3 := Some 2, 4 := Some 1))"

definition g_nest :: sdfg where
  "g_nest = SDFG [(''X'', host_array)] [] [st_nest] []"

subsection \<open>Reclassification\<close>

text \<open>
  The placement \<^verbatim>\<open>fpga_update\<close> gives an access node at a nesting depth, the
  descriptor a name ends with (the first access node of the name in the node order
  decides, since the later ones find the descriptor no longer at default storage),
  the map a key ends with, and what becomes of a node: a nested SDFG node holds the
  child graph whose states were updated one after the other at the next depth, the
  child catalog handed from each state to the next; any other node is as it was.
\<close>

definition placement :: "(nat \<Rightarrow> nat option) \<Rightarrow> nat \<Rightarrow> nat \<Rightarrow> StorageType" where
  "placement sd depth i =
     (if depth \<ge> 2 then FPGA_Local else if sd i \<noteq> None then FPGA_Local else FPGA_Global)"

definition first_access :: "(nat \<times> node) list \<Rightarrow> string \<Rightarrow> nat option" where
  "first_access ns a = map_option fst (find (\<lambda>(i, n). is_access (Some n) a) ns)"

definition reclassified :: "(nat \<Rightarrow> nat option) \<Rightarrow> nat \<Rightarrow> (nat \<times> node) list \<Rightarrow> string \<Rightarrow> desc \<Rightarrow> desc" where
  "reclassified sd depth ns a d =
     (if storage d = Storage_Default then
        (case first_access ns a of None \<Rightarrow> d | Some i \<Rightarrow> d\<lparr>storage := placement sd depth i\<rparr>)
      else d)"

fun carries_map :: "nat \<Rightarrow> nat \<times> node \<Rightarrow> bool" where
  "carries_map m (i, MapEntry k) = (k = m)"
| "carries_map m (i, MapExit k) = (k = m)"
| "carries_map m (i, n) = False"

definition rescheduled :: "(nat \<times> node) list \<Rightarrow> (nat \<Rightarrow> map_obj) \<Rightarrow> nat \<Rightarrow> map_obj" where
  "rescheduled ns ms m =
     (if list_ex (carries_map m) ns \<and> schedule (ms m) = Schedule_Default
      then (ms m)\<lparr>schedule := FPGA_Device\<rparr> else ms m)"

fun updates_chain :: "nat \<Rightarrow> catalog list \<Rightarrow> state list \<Rightarrow> state list \<Rightarrow> bool" where
  "updates_chain depth (c # c' # cs) (s # ss) (s' # ss') =
     (fpga_update c s depth = Inr (c', s') \<and> updates_chain depth (c' # cs) ss ss')"
| "updates_chain depth [c] [] [] = True"
| "updates_chain depth cs ss ss' = False"

definition child_lowered :: "nat \<Rightarrow> sdfg \<Rightarrow> sdfg \<Rightarrow> bool" where
  "child_lowered depth g g' =
     (constants g' = constants g \<and> cedges g' = cedges g
      \<and> (\<exists>cs. cs \<noteq> [] \<and> hd cs = arrays g \<and> last cs = arrays g'
               \<and> updates_chain (Suc depth) cs (states g) (states g')))"

fun node_lowered :: "nat \<Rightarrow> node \<Rightarrow> node \<Rightarrow> bool" where
  "node_lowered depth (NestedSDFG g) (NestedSDFG g') = child_lowered depth g g'"
| "node_lowered depth (NestedSDFG g) n' = False"
| "node_lowered depth n n' = (n' = n)"

fun all_descs_nodes :: "catalog \<Rightarrow> (nat \<times> node) list \<Rightarrow> bool"
and all_descs_states :: "catalog \<Rightarrow> state list \<Rightarrow> bool" where
  "all_descs_nodes arrs [] = True"
| "all_descs_nodes arrs ((i, AccessNode a) # rest) = (map_of arrs a \<noteq> None \<and> all_descs_nodes arrs rest)"
| "all_descs_nodes arrs ((i, NestedSDFG (SDFG narrs cs sts ces)) # rest) =
     (all_descs_states narrs sts \<and> all_descs_nodes arrs rest)"
| "all_descs_nodes arrs ((i, n) # rest) = all_descs_nodes arrs rest"
| "all_descs_states arrs [] = True"
| "all_descs_states arrs (SDFGState l ns es ms sd # ss) =
     (all_descs_nodes arrs ns \<and> all_descs_states arrs ss)"

fun storages_nodes :: "(nat \<times> node) list \<Rightarrow> (string \<times> StorageType) list"
and storages_states :: "state list \<Rightarrow> (string \<times> StorageType) list" where
  "storages_nodes [] = []"
| "storages_nodes ((i, NestedSDFG (SDFG narrs cs sts ces)) # rest) =
     map (\<lambda>(n, d). (n, storage d)) narrs @ storages_states sts @ storages_nodes rest"
| "storages_nodes ((i, n) # rest) = storages_nodes rest"
| "storages_states [] = []"
| "storages_states (SDFGState l ns es ms sd # ss) = storages_nodes ns @ storages_states ss"

definition g_deep :: sdfg where
  "g_deep =
     SDFG [(''deep'', host_array)] []
       [SDFGState ''d0'' [(20, AccessNode ''deep'')] [] no_maps unscoped] []"

definition g_inner :: sdfg where
  "g_inner =
     SDFG [(''in'', host_array), (''tmp'', host_array)] []
       [SDFGState ''i0''
          [(10, AccessNode ''in''), (11, MapEntry 0), (12, AccessNode ''tmp''),
           (13, NestedSDFG g_deep), (14, MapExit 0)] []
          (no_maps(0 := \<lparr>map_range = [(Const 0, Const 3, Const 1)], schedule = Sequential\<rparr>))
          (unscoped(12 := Some 11, 13 := Some 11))] []"

definition st_outer :: state where
  "st_outer =
     SDFGState ''s0''
       [(0, AccessNode ''X''), (1, MapEntry 0), (2, AccessNode ''T''), (3, NestedSDFG g_inner),
        (4, MapExit 0), (5, AccessNode ''H''), (6, AccessNode ''T'')] []
       (no_maps(0 := \<lparr>map_range = [(Const 0, Sym ''N'', Const 1)], schedule = Schedule_Default\<rparr>))
       (unscoped(2 := Some 1, 3 := Some 1))"

definition outer_arrays :: catalog where
  "outer_arrays =
     [(''X'', host_array), (''T'', host_array\<lparr>transient := True\<rparr>),
      (''H'', host_array\<lparr>storage := CPU_Heap\<rparr>), (''U'', host_array)]"

subsection \<open>Graphs for the rewrite\<close>

definition mk_edge ::
  "nat \<Rightarrow> string option \<Rightarrow> nat \<Rightarrow> string option \<Rightarrow> string option \<Rightarrow> int \<Rightarrow> string option \<Rightarrow> edge" where
  "mk_edge s sc d dc nm w c =
     \<lparr>src = s, src_conn = sc, dst = d, dst_conn = dc,
      e_data = \<lparr>m_data = nm, num_accesses = Const 1, m_subset = [(Const 0, Const 0, Const 1)],
                veclen = w, wcr = c\<rparr>\<rparr>"

text \<open>
  One unscoped input array \<open>X\<close>, a tasklet and one unscoped output array \<open>Y\<close>; the
  two memlets name \<open>X\<close> and \<open>Y\<close> and nothing carries a conflict resolution.
\<close>

definition st_xy :: state where
  "st_xy =
     SDFGState ''s0'' [(0, AccessNode ''X''), (1, Tasklet ''t''), (2, AccessNode ''Y'')]
       [mk_edge 0 None 1 (Some ''a'') (Some ''X'') 1 None,
        mk_edge 1 (Some ''b'') 2 None (Some ''Y'') 1 None]
       no_maps unscoped"

definition g_xy :: sdfg where
  "g_xy = SDFG [(''X'', host_array), (''Y'', host_array)] [] [st_xy] []"

definition has_wcr :: "state \<Rightarrow> bool" where
  "has_wcr st = list_ex (\<lambda>e. wcr (e_data e) \<noteq> None) (edges st)"

text \<open>
  A nested SDFG that reads its connector \<open>a\<close> four elements wide, fed from \<open>X\<close>;
  beside it \<open>Z\<close> feeds a tasklet that writes \<open>Y\<close>, both with width one.
\<close>

definition g_vec :: sdfg where
  "g_vec =
     SDFG [(''a'', host_array)] []
       [SDFGState ''v0'' [(10, AccessNode ''a''), (11, Tasklet ''k'')]
          [mk_edge 10 None 11 (Some ''x'') (Some ''a'') 4 None] no_maps unscoped] []"

definition st_stale :: state where
  "st_stale =
     SDFGState ''s0''
       [(0, AccessNode ''X''), (1, NestedSDFG g_vec), (2, AccessNode ''Z''), (3, Tasklet ''t''),
        (4, AccessNode ''Y'')]
       [mk_edge 0 None 1 (Some ''a'') (Some ''X'') 1 None,
        mk_edge 2 None 3 (Some ''i'') (Some ''Z'') 1 None,
        mk_edge 3 (Some ''o'') 4 None (Some ''Y'') 1 None]
       no_maps unscoped"

definition g_stale :: sdfg where
  "g_stale = SDFG [(''X'', host_array), (''Z'', host_array), (''Y'', host_array)] [] [st_stale] []"

definition lowered_edges :: "sdfg \<Rightarrow> nat \<Rightarrow> error + (nat \<times> nat \<times> string option \<times> int) list" where
  "lowered_edges g idx =
     (case FPGATransformState_apply g idx of
        Inl e \<Rightarrow> Inl e
      | Inr g' \<Rightarrow>
          Inr (map (\<lambda>e. (src e, dst e, m_data (e_data e), veclen (e_data e)))
                 (edges (states g' ! idx))))"

subsection \<open>Demotion\<close>

text \<open>
  A top-level array is demoted when it is transient, not a shared transient, stored
  accelerator-global, and its total size resolves to a constant. The live descriptor
  of an access node is the entry of its data in the catalog of the graph that owns
  its state; \<open>traced_local\<close> says of a graph that every access node, at any nesting
  depth, whose trace holds a candidate of the given name has its live descriptor at
  accelerator-local storage. \<open>own_scope_only\<close> is what the trace of a node of a
  top-level state looks like: it has the scope of the node alone, so a candidate in
  it is the node itself.
\<close>

definition demotable :: "sdfg \<Rightarrow> string \<Rightarrow> bool" where
  "demotable g name =
     (case map_of (arrays g) name of
        None \<Rightarrow> False
      | Some d \<Rightarrow>
          transient d \<and> name \<notin> set (shared_transients g) \<and> storage d = FPGA_Global
          \<and> resolve_symbol_to_constant (total_size d) g \<noteq> None)"

definition is_local :: "catalog \<Rightarrow> string \<Rightarrow> bool" where
  "is_local arrs a = (case map_of arrs a of None \<Rightarrow> False | Some d \<Rightarrow> storage d = FPGA_Local)"

fun traced_local_nodes :: "tracer \<Rightarrow> string \<Rightarrow> nat list \<Rightarrow> catalog \<Rightarrow> (nat \<times> node) list \<Rightarrow> bool"
and traced_local_states :: "tracer \<Rightarrow> string \<Rightarrow> nat list \<Rightarrow> nat \<Rightarrow> catalog \<Rightarrow> state list \<Rightarrow> bool" where
  "traced_local_nodes tr name path arrs [] = True"
| "traced_local_nodes tr name path arrs ((i, AccessNode a) # rest) =
     ((if Some name \<in> set (tr path i) then is_local arrs a else True)
      \<and> traced_local_nodes tr name path arrs rest)"
| "traced_local_nodes tr name path arrs ((i, NestedSDFG (SDFG narrs cs sts ces)) # rest) =
     (traced_local_states tr name (path @ [i]) 0 narrs sts \<and> traced_local_nodes tr name path arrs rest)"
| "traced_local_nodes tr name path arrs ((i, n) # rest) = traced_local_nodes tr name path arrs rest"
| "traced_local_states tr name prefix k arrs [] = True"
| "traced_local_states tr name prefix k arrs (SDFGState l ns es ms sd # ss) =
     (traced_local_nodes tr name (prefix @ [k]) arrs ns
      \<and> traced_local_states tr name prefix (Suc k) arrs ss)"

definition traced_local :: "tracer \<Rightarrow> string \<Rightarrow> sdfg \<Rightarrow> bool" where
  "traced_local tr name g = traced_local_states tr name [] 0 (arrays g) (states g)"

fun own_scope_nodes :: "tracer \<Rightarrow> nat list \<Rightarrow> (nat \<times> node) list \<Rightarrow> bool" where
  "own_scope_nodes tr path [] = True"
| "own_scope_nodes tr path ((i, AccessNode a) # rest) =
     (list_all (\<lambda>c. c = None \<or> c = Some a) (tr path i) \<and> own_scope_nodes tr path rest)"
| "own_scope_nodes tr path ((i, n) # rest) = own_scope_nodes tr path rest"

fun own_scope_states :: "tracer \<Rightarrow> nat \<Rightarrow> state list \<Rightarrow> bool" where
  "own_scope_states tr k [] = True"
| "own_scope_states tr k (s # ss) = (own_scope_nodes tr [k] (nodes s) \<and> own_scope_states tr (Suc k) ss)"

definition own_scope_only :: "tracer \<Rightarrow> sdfg \<Rightarrow> bool" where
  "own_scope_only tr g = own_scope_states tr 0 (states g)"

text \<open>
  What the pass never changes: the descriptors but for their storage, and the
  identities and data names of the nodes.
\<close>

definition forget_storage :: "catalog \<Rightarrow> catalog" where
  "forget_storage arrs = map (\<lambda>(n, d). (n, d\<lparr>storage := Storage_Default\<rparr>)) arrs"

fun access_name :: "node \<Rightarrow> string option" where
  "access_name (AccessNode a) = Some a"
| "access_name n = None"

definition node_tags :: "(nat \<times> node) list \<Rightarrow> (nat \<times> string option) list" where
  "node_tags ns = map (\<lambda>(i, n). (i, access_name n)) ns"

definition demoted_only :: "catalog \<Rightarrow> catalog \<Rightarrow> bool" where
  "demoted_only arrs arrs' =
     (forget_storage arrs' = forget_storage arrs
      \<and> (\<forall>a. map_of arrs' a = map_of arrs a
             \<or> (\<exists>d. map_of arrs a = Some d \<and> map_of arrs' a = Some (d\<lparr>storage := FPGA_Local\<rparr>))))"

definition stable :: "sdfg \<Rightarrow> sdfg \<Rightarrow> bool" where
  "stable g g' =
     (constants g' = constants g \<and> cedges g' = cedges g
      \<and> forget_storage (arrays g') = forget_storage (arrays g)
      \<and> map (\<lambda>s. node_tags (nodes s)) (states g') = map (\<lambda>s. node_tags (nodes s)) (states g))"

definition demoted_count :: "sdfg \<Rightarrow> nat" where
  "demoted_count g = length (remdups (filter (demotable g) (map fst (arrays g))))"

text \<open>
  A graph with a demotable transient \<open>T\<close>, read inside a nested SDFG through the
  connector \<open>t_in\<close>; a transient \<open>S\<close> that two states share; a transient \<open>V\<close>
  whose size is the unbound symbol \<open>N\<close>; and an array \<open>P\<close> that is not transient.
\<close>

definition g_child :: sdfg where
  "g_child =
     SDFG [(''t_in'', host_array\<lparr>storage := FPGA_Global\<rparr>)] []
       [SDFGState ''c0'' [(10, AccessNode ''t_in''), (11, Tasklet ''k'')] [] no_maps unscoped] []"

definition g_demo :: sdfg where
  "g_demo =
     SDFG [(''T'', global_array), (''S'', global_array),
           (''V'', global_array\<lparr>shape := [Sym ''N''], total_size := Sym ''N''\<rparr>),
           (''P'', host_array\<lparr>storage := FPGA_Global\<rparr>)] []
       [SDFGState ''s0''
          [(0, AccessNode ''T''), (1, AccessNode ''S''), (2, NestedSDFG g_child),
           (3, AccessNode ''V''), (4, AccessNode ''P'')] [] no_maps unscoped,
        SDFGState ''s1'' [(5, AccessNode ''S'')] [] no_maps unscoped] []"

definition tr_demo :: tracer where
  "tr_demo path i =
     (if path = [0] \<and> i = 0 then [Some ''T'']
      else if path = [0] \<and> i = 1 then [None, Some ''S'']
      else if path = [0] \<and> i = 3 then [Some ''V'']
      else if path = [0] \<and> i = 4 then [Some ''P'']
      else if path = [1] \<and> i = 5 then [Some ''S'']
      else if path = [0, 2, 0] \<and> i = 10 then [Some ''T'', Some ''t_in'']
      else [])"

definition g2l_observed :: "error + g2l_outcome \<Rightarrow> error + (nat option \<times> string list \<times> (string \<times> StorageType) list \<times> (string \<times> StorageType) list)" where
  "g2l_observed r =
     (case r of
        Inl e \<Rightarrow> Inl e
      | Inr out \<Rightarrow>
          Inr (g2l_return out, g2l_printed out,
               map (\<lambda>(n, d). (n, storage d)) (arrays (g2l_graph out)),
               storages_states (states (g2l_graph out))))"

subsection \<open>Re-running the applicability check\<close>

text \<open>
  What the staging phases keep of the matched state: its maps, the scopes of the nodes
  it had (identities below \<open>base\<close>), and every node that is not an access node;
  identities stay distinct and below the counter of new identities.
\<close>

definition has_access :: "(nat \<times> node) list \<Rightarrow> bool" where
  "has_access ns = list_ex (\<lambda>(i, n). access_name n \<noteq> None) ns"







text \<open>
  What the reclassification does to the schedule of a map that some node of the state
  carries, and what relates the scopes of the matched state to those of the lowered
  one. A map entry is default-scoped when its own map, or the map of one of its
  enclosing scopes, has the default schedule; \<open>sourced\<close> says that the access nodes
  the staging loops replace are nodes of the matched state.
\<close>

definition is_default :: "ScheduleType \<Rightarrow> bool" where
  "is_default s = (s = Schedule_Default)"

definition default_above :: "state \<Rightarrow> nat \<Rightarrow> bool" where
  "default_above st i = (\<exists>p. ancestor st i p \<and> scope_has st is_default p)"

definition default_entry :: "state \<Rightarrow> nat \<times> node \<Rightarrow> bool" where
  "default_entry st x =
     (case snd x of
        MapEntry m \<Rightarrow> schedule (maps st m) = Schedule_Default \<or> default_above st (fst x)
      | _ \<Rightarrow> False)"





section \<open>Bank interleaving: proofs\<close>

lemma sum_list_bump:
  "k < length xs \<Longrightarrow> sum_list (xs[k := xs ! k + 1]) = sum_list xs + (1::int)"
  by (induction xs arbitrary: k) (auto split: nat.splits)

lemma py_index_in_range:
  "0 \<le> j \<Longrightarrow> j < int (length xs) \<Longrightarrow> py_index xs j = Inr (nat j)"
  by (simp add: py_index_def Let_def)

lemma is_global_pair [simp]: "is_global (n, d) = (storage d = FPGA_Global)"
  by (simp add: is_global_def)

lemma rr_loop_total:
  "0 < B \<Longrightarrow> length acc = nat B \<Longrightarrow>
   \<exists>res. rr_loop B i arrs acc = Inr (rr_assign B i arrs, res)
       \<and> length res = nat B
       \<and> sum_list res = sum_list acc + int (length (filter is_global arrs))"
proof (induction arrs arbitrary: i acc)
  case Nil
  then show ?case by simp
next
  case (Cons a arrs)
  obtain n d where a: "a = (n, d)" by (cases a)
  have m: "0 \<le> int i mod B" "int i mod B < int (length acc)"
    using Cons.prems by simp_all
  show ?case
  proof (cases "storage d = FPGA_Global")
    case True
    let ?acc = "acc[nat (int i mod B) := acc ! nat (int i mod B) + 1]"
    have len: "length ?acc = nat B" using Cons.prems by simp
    from Cons.IH[OF Cons.prems(1) len, of "Suc i"] obtain res where
      r: "rr_loop B (Suc i) arrs ?acc = Inr (rr_assign B (Suc i) arrs, res)"
         "length res = nat B"
         "sum_list res = sum_list ?acc + int (length (filter is_global arrs))"
      by blast
    have s: "sum_list ?acc = sum_list acc + 1"
      using m Cons.prems by (intro sum_list_bump) simp
    show ?thesis
      using True Cons.prems(1) r s m
      by (simp add: a py_index_in_range rr_target_def)
  next
    case False
    from Cons.IH[OF Cons.prems, of "Suc i"] obtain res where
      r: "rr_loop B (Suc i) arrs acc = Inr (rr_assign B (Suc i) arrs, res)"
         "length res = nat B"
         "sum_list res = sum_list acc + int (length (filter is_global arrs))"
      by blast
    show ?thesis
      using False r by (simp add: a rr_target_def)
  qed
qed

lemma rr_assign_length: "length (rr_assign B i arrs) = length arrs"
  by (induction B i arrs rule: rr_assign.induct) simp_all

lemma rr_assign_nth:
  "k < length arrs \<Longrightarrow>
   rr_assign B i arrs ! k = (fst (arrs ! k), rr_target B (i + k) (snd (arrs ! k)))"
proof (induction B i arrs arbitrary: k rule: rr_assign.induct)
  case (1 B i)
  then show ?case by simp
next
  case (2 B i n d rest)
  then show ?case by (cases k) simp_all
qed

lemma rr_five:
  assumes "length arrs = 5" "\<forall>nd\<in>set arrs. is_global nd"
  shows "rr_interleave arrs 4 = Inr (rr_assign 4 0 arrs, [2, 1, 1, 1])"
proof -
  from assms(1) obtain a b c d e where l: "arrs = [a, b, c, d, e]"
    by (auto simp: length_Suc_conv eval_nat_numeral)
  obtain an ad bn bd cn cd dn dd en ed where
    p: "a = (an, ad)" "b = (bn, bd)" "c = (cn, cd)" "d = (dn, dd)" "e = (en, ed)"
    by (cases a, cases b, cases c, cases d, cases e) blast
  have g: "storage ad = FPGA_Global" "storage bd = FPGA_Global" "storage cd = FPGA_Global"
    "storage dd = FPGA_Global" "storage ed = FPGA_Global"
    using assms(2) by (simp_all add: l p)
  show ?thesis
    by (simp add: l p g rr_interleave_def py_index_def rr_target_def eval_nat_numeral)
qed

lemma rr_interleave_total:
  assumes "1 \<le> B"
  shows "\<exists>res. rr_interleave arrs B = Inr (rr_assign B 0 arrs, res)
           \<and> length res = nat B
           \<and> sum_list res = int (length (filter is_global arrs))"
proof -
  have "0 < B" "length (replicate (nat B) (0::int)) = nat B" using assms by simp_all
  from rr_loop_total[OF this, of 0 arrs] show ?thesis
    by (simp add: rr_interleave_def sum_list_replicate)
qed

lemma bank_load_Nil [simp]: "bank_load B i [] k = 0"
  by (simp add: bank_load_def)

lemma bank_load_Cons:
  "bank_load B i ((n, d) # rest) k =
     (if storage d = FPGA_Global \<and> int i mod B = int k then 1 else 0) + bank_load B (Suc i) rest k"
proof -
  have u: "[0..<length ((n, d) # rest)] = 0 # map Suc [0..<length rest]"
    by (simp add: upt_conv_Cons map_Suc_upt del: upt_Suc)
  show ?thesis
    unfolding bank_load_def u by (simp add: filter_map comp_def ac_simps)
qed

lemma rr_loop_counts:
  "0 < B \<Longrightarrow> length acc = nat B \<Longrightarrow> rr_loop B i arrs acc = Inr (arrs', res) \<Longrightarrow>
     \<forall>k<nat B. res ! k = acc ! k + bank_load B i arrs k"
proof (induction arrs arbitrary: i acc arrs')
  case Nil
  then show ?case by simp
next
  case (Cons a arrs)
  obtain n d where a: "a = (n, d)" by (cases a)
  have m: "0 \<le> int i mod B" "int i mod B < int (length acc)"
    using Cons.prems by simp_all
  show ?case
  proof (cases "storage d = FPGA_Global")
    case True
    let ?j = "nat (int i mod B)"
    let ?acc = "acc[?j := acc ! ?j + 1]"
    have len: "length ?acc = nat B" using Cons.prems by simp
    from Cons.prems(3) True m Cons.prems(1) obtain rest' where
      run: "rr_loop B (Suc i) arrs ?acc = Inr (rest', res)"
      by (auto simp: a py_index_in_range Let_def split: sum.splits prod.splits)
    from Cons.IH[OF Cons.prems(1) len run]
    have IH: "\<forall>k<nat B. res ! k = ?acc ! k + bank_load B (Suc i) arrs k" .
    show ?thesis
    proof (intro allI impI)
      fix k assume k: "k < nat B"
      have j: "(int i mod B = int k) = (?j = k)" using m by auto
      from k Cons.prems(2) have "?acc ! k = acc ! k + (if ?j = k then 1 else 0)"
        by (simp add: nth_list_update)
      with IH k show "res ! k = acc ! k + bank_load B i (a # arrs) k"
        by (simp add: a bank_load_Cons True j)
    qed
  next
    case False
    from Cons.prems(3) False obtain rest' where
      run: "rr_loop B (Suc i) arrs acc = Inr (rest', res)"
      by (auto simp: a split: sum.splits prod.splits)
    from Cons.IH[OF Cons.prems(1,2) run] False show ?thesis
      by (simp add: a bank_load_Cons)
  qed
qed

lemma rr_interleave_counts:
  assumes "1 \<le> B" "rr_interleave arrs B = Inr (arrs', res)" "k < nat B"
  shows "res ! k = int (length (filter (\<lambda>i. is_global (arrs ! i) \<and> int i mod B = int k) [0..<length arrs]))"
proof -
  have "0 < B" "length (replicate (nat B) (0::int)) = nat B" using assms by simp_all
  from rr_loop_counts[OF this assms(2)[unfolded rr_interleave_def]] assms(3)
  show ?thesis by (simp add: bank_load_def)
qed

text \<open>
  Claim C3. For every graph and every bank count \<open>B \<ge> 1\<close> the pass returns; it
  leaves the names and the order of the catalog as they are; the descriptor at
  position \<open>i\<close> of the whole catalog gets the location \<open>bank = i mod B\<close> when its
  storage is accelerator-global and is left as it is otherwise; the rest of the graph
  is untouched; the returned list has one count per bank, the count of bank \<open>k\<close> is
  the number of accelerator-global arrays whose position in the whole catalog is
  \<open>k\<close> modulo \<open>B\<close>, and the counts sum to the number of accelerator-global
  arrays; and a catalog of exactly five arrays, all accelerator-global, with four
  banks gives the counts \<open>[2, 1, 1, 1]\<close>.
\<close>

theorem rr_interleave_assigns_position_mod_banks:
  assumes "1 \<le> B"
  shows "\<exists>g' counts.
           fpga_rr_interleave_containers_to_banks g B = Inr (g', counts)
         \<and> length (arrays g') = length (arrays g)
         \<and> (\<forall>i<length (arrays g).
               fst (arrays g' ! i) = fst (arrays g ! i)
             \<and> snd (arrays g' ! i) =
                 (if storage (snd (arrays g ! i)) = FPGA_Global
                  then (snd (arrays g ! i))
                         \<lparr>location := (location (snd (arrays g ! i)))(''bank'' \<mapsto> int i mod B)\<rparr>
                  else snd (arrays g ! i)))
         \<and> constants g' = constants g \<and> states g' = states g \<and> cedges g' = cedges g
         \<and> length counts = nat B
         \<and> (\<forall>k<nat B.
               counts ! k =
                 int (length (filter (\<lambda>i. is_global (arrays g ! i) \<and> int i mod B = int k)
                                [0..<length (arrays g)])))
         \<and> sum_list counts = int (length (filter is_global (arrays g)))
         \<and> (B = 4 \<and> length (arrays g) = 5 \<and> (\<forall>nd\<in>set (arrays g). is_global nd)
              \<longrightarrow> counts = [2, 1, 1, 1])"
proof -
  from rr_interleave_total[OF assms, of "arrays g"] obtain res where
    r: "rr_interleave (arrays g) B = Inr (rr_assign B 0 (arrays g), res)"
       "length res = nat B"
       "sum_list res = int (length (filter is_global (arrays g)))"
    by blast
  have five: "res = [2, 1, 1, 1]"
    if "B = 4" "length (arrays g) = 5" "\<forall>nd\<in>set (arrays g). is_global nd"
    using rr_five[OF that(2,3)] r(1) that(1) by simp
  have nth: "fst (rr_assign B 0 (arrays g) ! i) = fst (arrays g ! i)
           \<and> snd (rr_assign B 0 (arrays g) ! i) =
               (if storage (snd (arrays g ! i)) = FPGA_Global
                then (snd (arrays g ! i))
                       \<lparr>location := (location (snd (arrays g ! i)))(''bank'' \<mapsto> int i mod B)\<rparr>
                else snd (arrays g ! i))"
    if "i < length (arrays g)" for i
    using rr_assign_nth[OF that, of B 0] by (simp add: rr_target_def)
  have each: "res ! k = int (length (filter (\<lambda>i. is_global (arrays g ! i) \<and> int i mod B = int k)
                                      [0..<length (arrays g)]))"
    if "k < nat B" for k
    using rr_interleave_counts[OF assms r(1) that] .
  show ?thesis
    using r five nth each
    by (simp add: fpga_rr_interleave_containers_to_banks_def rr_assign_length)
qed

theorem rr_interleave_five_arrays_witness:
  "(1::int) \<le> 4 \<and> length (arrays g_five) = 5 \<and> list_all is_global (arrays g_five)
   \<and> (\<exists>g'. fpga_rr_interleave_containers_to_banks g_five 4 = Inr (g', [2, 1, 1, 1])
          \<and> map (\<lambda>nd. location (snd nd) ''bank'') (arrays g') = [Some 0, Some 1, Some 2, Some 3, Some 0])
   \<and> (1::int) \<le> 2
   \<and> (\<exists>g'. fpga_rr_interleave_containers_to_banks g_mixed 2 = Inr (g', [2, 0])
          \<and> map (\<lambda>nd. location (snd nd) ''bank'') (arrays g') = [Some 0, None, Some 0])"
proof -
  have h: "(1::int) \<le> 4" by simp
  have five: "length (arrays g_five) = 5" "\<forall>nd\<in>set (arrays g_five). is_global nd"
    by (simp_all add: g_five_def global_array_def host_array_def)
  from rr_interleave_assigns_position_mod_banks[OF h, of g_five] obtain g' counts where
    r: "fpga_rr_interleave_containers_to_banks g_five 4 = Inr (g', counts)"
       "counts = [2, 1, 1, 1]"
    using five by auto
  have "map (\<lambda>nd. location (snd nd) ''bank'') (arrays g') = [Some 0, Some 1, Some 2, Some 3, Some 0]"
    using r(1)
    by (auto simp: fpga_rr_interleave_containers_to_banks_def rr_interleave_def g_five_def
        global_array_def host_array_def py_index_def eval_nat_numeral)
  with r have a: "\<exists>g'. fpga_rr_interleave_containers_to_banks g_five 4 = Inr (g', [2, 1, 1, 1])
          \<and> map (\<lambda>nd. location (snd nd) ''bank'') (arrays g') = [Some 0, Some 1, Some 2, Some 3, Some 0]"
    by (intro exI[where x = g']) simp
  have h2: "(1::int) \<le> 2" by simp
  from rr_interleave_assigns_position_mod_banks[OF h2, of g_mixed] obtain g2 counts2 where
    r2: "fpga_rr_interleave_containers_to_banks g_mixed 2 = Inr (g2, counts2)"
        "length counts2 = 2"
        "\<forall>k<2. counts2 ! k =
            int (length (filter (\<lambda>i. is_global (arrays g_mixed ! i) \<and> int i mod 2 = int k)
                           [0..<length (arrays g_mixed)]))"
    by auto
  have l: "arrays g_mixed = [(''a0'', global_array), (''h'', host_array), (''a2'', global_array)]"
    by (simp add: g_mixed_def)
  have "counts2 ! 0 = 2" "counts2 ! 1 = 0"
    using r2(3) by (simp_all add: l upt_rec[of 0] upt_rec[of 1] upt_rec[of 2] nth_Cons'
        global_array_def host_array_def)
  with r2(2) have c2: "counts2 = [2, 0]"
    by (cases counts2; cases "tl counts2") auto
  have "map (\<lambda>nd. location (snd nd) ''bank'') (arrays g2) = [Some 0, None, Some 0]"
    using r2(1)
    by (auto simp: fpga_rr_interleave_containers_to_banks_def rr_interleave_def g_mixed_def
        global_array_def host_array_def py_index_def eval_nat_numeral)
  with r2(1) c2 have b: "\<exists>g'. fpga_rr_interleave_containers_to_banks g_mixed 2 = Inr (g', [2, 0])
          \<and> map (\<lambda>nd. location (snd nd) ''bank'') (arrays g') = [Some 0, None, Some 0]"
    by (intro exI[where x = g2]) simp
  from h five a h2 b show ?thesis by (simp add: list_all_iff)
qed

lemma rr_loop_again:
  "rr_loop B i arrs acc = Inr (arrs', res) \<Longrightarrow>
     rr_loop B i arrs' acc = Inr (arrs', res)
   \<and> map fst arrs' = map fst arrs
   \<and> map (\<lambda>nd. storage (snd nd)) arrs' = map (\<lambda>nd. storage (snd nd)) arrs"
proof (induction arrs arbitrary: i acc arrs' res)
  case Nil
  then show ?case by simp
next
  case (Cons a arrs)
  obtain n d where a: "a = (n, d)" by (cases a)
  show ?case
  proof (cases "storage d = FPGA_Global")
    case True
    with Cons.prems a obtain k rest' where
      k: "B \<noteq> 0" "py_index acc (int i mod B) = Inr k"
         "rr_loop B (Suc i) arrs (acc[k := acc ! k + 1]) = Inr (rest', res)"
         "arrs' = (n, d\<lparr>location := (location d)(''bank'' \<mapsto> int i mod B)\<rparr>) # rest'"
      by (auto simp: Let_def split: if_splits sum.splits prod.splits)
    from Cons.IH[OF k(3)] k True show ?thesis by (simp add: a)
  next
    case False
    with Cons.prems a obtain rest' where
      k: "rr_loop B (Suc i) arrs acc = Inr (rest', res)" "arrs' = (n, d) # rest'"
      by (auto split: sum.splits prod.splits)
    from Cons.IH[OF k(1)] k False show ?thesis by (simp add: a)
  qed
qed

text \<open>
  Claim C10. A run of the pass that returns can be repeated: on the graph it produced,
  with the same bank count, it returns the same graph (the same bank assignments in
  the location maps) and the same per-bank counts, and the first run changed neither
  a storage tag nor the order of the catalog.
\<close>

theorem rr_interleave_idempotent:
  assumes "fpga_rr_interleave_containers_to_banks g B = Inr (g', counts)"
  shows "fpga_rr_interleave_containers_to_banks g' B = Inr (g', counts)
       \<and> map fst (arrays g') = map fst (arrays g)
       \<and> map (\<lambda>nd. storage (snd nd)) (arrays g') = map (\<lambda>nd. storage (snd nd)) (arrays g)"
proof -
  from assms obtain arrs where
    a: "rr_interleave (arrays g) B = Inr (arrs, counts)"
       "g' = SDFG arrs (constants g) (states g) (cedges g)"
    by (auto simp: fpga_rr_interleave_containers_to_banks_def split: sum.splits prod.splits)
  from rr_loop_again[OF a(1)[unfolded rr_interleave_def]] show ?thesis
    by (simp add: a(2) fpga_rr_interleave_containers_to_banks_def rr_interleave_def)
qed

theorem rr_interleave_idempotent_witness:
  "\<exists>g'. fpga_rr_interleave_containers_to_banks g_five 4 = Inr (g', [2, 1, 1, 1])
      \<and> fpga_rr_interleave_containers_to_banks g' 4 = Inr (g', [2, 1, 1, 1])"
proof -
  have "\<exists>g'. fpga_rr_interleave_containers_to_banks g_five 4 = Inr (g', [2, 1, 1, 1])"
    by (simp add: fpga_rr_interleave_containers_to_banks_def rr_interleave_def g_five_def
        global_array_def host_array_def py_index_def eval_nat_numeral)
  then obtain g' where r: "fpga_rr_interleave_containers_to_banks g_five 4 = Inr (g', [2, 1, 1, 1])"
    by blast
  from rr_interleave_idempotent[OF r] r show ?thesis by blast
qed

section \<open>Applicability: proofs\<close>

lemma ancestor_unfold:
  "ancestor st i p \<longleftrightarrow> (\<exists>q. sdict st i = Some q \<and> (p = q \<or> ancestor st q p))"
  by (auto intro: ancestor.intros elim: ancestor.cases)

lemma scopes_wf_node_map:
  "scopes_wf rank st \<Longrightarrow> sdict st i = Some p \<Longrightarrow> \<exists>mo. node_map st p = Inr mo"
proof -
  assume "scopes_wf rank st" "sdict st i = Some p"
  then obtain m where "node_of st p = Some (MapEntry m)" by (auto simp: scopes_wf_def)
  then show ?thesis by (simp add: node_map_def)
qed

lemma scope_walk_wf:
  assumes wf: "scopes_wf rank st"
  shows "sdict st i = cur \<Longrightarrow>
         scope_walk st cur = Some (Inr (\<not> (\<exists>p. ancestor st i p \<and> scope_has st accel_schedule p)))"
proof (induction "rank i" arbitrary: i cur rule: less_induct)
  case less
  show ?case
  proof (cases cur)
    case None
    with less.prems have "\<And>p. \<not> ancestor st i p"
      by (auto elim: ancestor.cases)
    with None show ?thesis by (simp add: scope_walk.simps)
  next
    case (Some q)
    with less.prems have iq: "sdict st i = Some q" by simp
    from scopes_wf_node_map[OF wf iq] obtain mo where mo: "node_map st q = Inr mo" by blast
    from wf iq have rk: "rank q < rank i" by (simp add: scopes_wf_def)
    have anc: "(\<exists>p. ancestor st i p \<and> scope_has st accel_schedule p)
           \<longleftrightarrow> (scope_has st accel_schedule q \<or> (\<exists>p. ancestor st q p \<and> scope_has st accel_schedule p))"
      using iq by (subst ancestor_unfold) auto
    show ?thesis
    proof (cases "accel_schedule (schedule mo)")
      case True
      then have "scope_has st accel_schedule q" by (simp add: scope_has_def mo)
      with anc True Some mo show ?thesis by (subst scope_walk.simps) simp
    next
      case False
      then have nq: "\<not> scope_has st accel_schedule q" by (simp add: scope_has_def mo)
      from less.hyps[OF rk refl]
      have "scope_walk st (sdict st q)
            = Some (Inr (\<not> (\<exists>p. ancestor st q p \<and> scope_has st accel_schedule p)))" .
      with anc nq False Some mo show ?thesis by (subst scope_walk.simps) simp
    qed
  qed
qed

lemma disallowed_accel: "accel_schedule s \<Longrightarrow> disallowed_schedule s"
  by (auto simp: accel_schedule_def disallowed_schedule_def)

lemma node_gated_simps [simp]:
  "node_gated dis acc arrs st (i, AccessNode a)
     = (case map_of arrs a of None \<Rightarrow> False | Some d \<Rightarrow> storage d \<noteq> Storage_Default)"
  "node_gated dis acc arrs st (i, MapEntry m)
     = (length (map_range (maps st m)) > 3 \<or> dis (schedule (maps st m))
        \<or> (\<exists>p. ancestor st i p \<and> scope_has st acc p))"
  "node_gated dis acc arrs st (i, MapExit m) = False"
  "node_gated dis acc arrs st (i, Tasklet t) = False"
  "node_gated dis acc arrs st (i, NestedSDFG g) = False"
  by (simp_all add: node_gated_def)

lemma can_be_applied_nodes_wf:
  assumes wf: "scopes_wf rank st"
  shows "list_all (\<lambda>(i, n). case n of AccessNode a \<Rightarrow> map_of arrs a \<noteq> None | _ \<Rightarrow> True) ns \<Longrightarrow>
         can_be_applied_nodes arrs st ns
           = Some (Inr (\<not> list_ex (node_gated disallowed_schedule accel_schedule arrs st) ns))"
proof (induction ns)
  case Nil
  then show ?case by simp
next
  case (Cons x ns)
  obtain i n where x: "x = (i, n)" by (cases x)
  from Cons have IH: "can_be_applied_nodes arrs st ns
           = Some (Inr (\<not> list_ex (node_gated disallowed_schedule accel_schedule arrs st) ns))"
    by simp
  show ?case
  proof (cases n)
    case (AccessNode a)
    with Cons.prems x obtain d where d: "map_of arrs a = Some d" by auto
    show ?thesis
      using IH d by (simp add: x AccessNode lookup_desc_def)
  next
    case (MapEntry m)
    show ?thesis
      using IH scope_walk_wf[OF wf refl, of i] disallowed_accel[of "schedule (maps st m)"]
      by (auto simp: x MapEntry Let_def)
  next
    case (MapExit m)
    then show ?thesis using IH by (simp add: x)
  next
    case (Tasklet t)
    then show ?thesis using IH by (simp add: x)
  next
    case (NestedSDFG g)
    then show ?thesis using IH by (simp add: x)
  qed
qed

text \<open>
  Claim C2, as amended. On a candidate of the graph whose access nodes name descriptors
  of the catalog and whose scope dictionary is a forest of map entries,
  \<^verbatim>\<open>can_be_applied\<close> returns, and it returns false exactly when the state holds
  an access node whose descriptor is not at default storage, or a map entry with more
  than three dimensions, or a map entry whose schedule is \<^verbatim>\<open>MPI\<close>,
  \<^verbatim>\<open>GPU_Device\<close>, \<^verbatim>\<open>FPGA_Device\<close> or \<^verbatim>\<open>GPU_ThreadBlock\<close>, or a map
  entry with an enclosing scope whose schedule is \<^verbatim>\<open>GPU_Device\<close>,
  \<^verbatim>\<open>FPGA_Device\<close> or \<^verbatim>\<open>GPU_ThreadBlock\<close>; otherwise it returns true.
\<close>

theorem can_be_applied_gating:
  assumes "candidate < length (states g)"
      and "descs_present (arrays g) (states g ! candidate)"
      and "scopes_wf rank (states g ! candidate)"
  shows "can_be_applied g candidate g
           = Some (Inr (\<not> gated disallowed_schedule accel_schedule (arrays g) (states g ! candidate)))"
  using can_be_applied_nodes_wf[OF assms(3), of "arrays g" "nodes (states g ! candidate)"] assms(1,2)
  by (simp add: can_be_applied_def gated_def descs_present_def)

lemma st_nest_sel [simp]:
  "nodes st_nest = [(0, AccessNode ''X''), (1, MapEntry 0), (2, MapEntry 1), (3, Tasklet ''t''),
        (4, MapExit 1), (5, MapExit 0)]"
  "sdict st_nest = unscoped(2 := Some 1, 3 := Some 2, 4 := Some 1)"
  "maps st_nest = no_maps(0 := \<lparr>map_range = [(Const 0, Sym ''N'', Const 1)], schedule = Sequential\<rparr>,
                1 := \<lparr>map_range = [(Const 0, Sym ''M'', Const 1)], schedule = Schedule_Default\<rparr>)"
  by (simp_all add: st_nest_def)

lemma st_nest_anc1: "\<not> ancestor st_nest (Suc 0) p"
  by (auto simp: unscoped_def elim: ancestor.cases)

lemma st_nest_anc2: "ancestor st_nest 2 p \<longleftrightarrow> p = 1"
  by (subst ancestor_unfold) (simp add: st_nest_anc1)

theorem can_be_applied_gating_witness:
  "0 < length (states g_nest) \<and> descs_present (arrays g_nest) (states g_nest ! 0)
   \<and> scopes_wf (\<lambda>i. i) (states g_nest ! 0)
   \<and> \<not> gated disallowed_schedule accel_schedule (arrays g_nest) (states g_nest ! 0)
   \<and> can_be_applied g_nest 0 g_nest = Some (Inr True)"
proof -
  have a: "0 < length (states g_nest)" by (simp add: g_nest_def)
  have b: "descs_present (arrays g_nest) (states g_nest ! 0)"
    by (simp add: g_nest_def descs_present_def)
  have c: "scopes_wf (\<lambda>i. i) (states g_nest ! 0)"
    by (simp add: g_nest_def scopes_wf_def unscoped_def node_of_def)
  have d: "\<not> gated disallowed_schedule accel_schedule (arrays g_nest) (states g_nest ! 0)"
    by (simp add: g_nest_def gated_def st_nest_anc1 st_nest_anc2 host_array_def
        disallowed_schedule_def scope_has_def node_map_def node_of_def accel_schedule_def)
  from can_be_applied_gating[OF a b c] a b c d show ?thesis by simp
qed

lemma st_gpu_sel [simp]:
  "nodes st_gpu = [(0, MapEntry 0), (1, Tasklet ''t''), (2, MapExit 0)]"
  "sdict st_gpu = unscoped(1 := Some 0)"
  "maps st_gpu = no_maps(0 := \<lparr>map_range = [(Const 0, Sym ''N'', Const 1)], schedule = GPU_Device\<rparr>)"
  by (simp_all add: st_gpu_def)

text \<open>
  Claim C2 as stated fails: a state whose only map has the schedule
  \<^verbatim>\<open>GPU_Device\<close> meets none of the four conditions of the claim (whose sets
  are MPI-distributed, accelerator-device and accelerator-threadblock), and
  \<^verbatim>\<open>can_be_applied\<close> returns false on it.
\<close>

theorem can_be_applied_gpu_device_counterexample:
  "can_be_applied g_gpu 0 g_gpu = Some (Inr False)
   \<and> \<not> gated claimed_disallowed claimed_accel (arrays g_gpu) (states g_gpu ! 0)"
proof -
  have anc: "\<not> ancestor st_gpu 0 p" for p
    by (auto simp: unscoped_def elim: ancestor.cases)
  have "\<not> gated claimed_disallowed claimed_accel (arrays g_gpu) (states g_gpu ! 0)"
    by (simp add: g_gpu_def gated_def anc claimed_disallowed_def)
  moreover have "can_be_applied g_gpu 0 g_gpu = Some (Inr False)"
    by (simp add: can_be_applied_def g_gpu_def disallowed_schedule_def)
  ultimately show ?thesis by simp
qed


section \<open>Reclassification: proofs\<close>

lemma map_of_set_storage:
  "map_of (set_storage a s arrs) b
     = (if b = a then map_option (\<lambda>d. d\<lparr>storage := s\<rparr>) (map_of arrs a) else map_of arrs b)"
  by (auto simp: set_storage_def update_conv' split: option.splits)

lemma keys_set_storage: "map fst (set_storage a s arrs) = map fst arrs"
proof (cases "map_of arrs a")
  case None
  then show ?thesis by (simp add: set_storage_def)
next
  case (Some d)
  then have "a \<in> fst ` set arrs" by (auto dest: map_of_SomeD intro: rev_image_eqI)
  with Some show ?thesis by (simp add: set_storage_def update_keys)
qed

lemma placement_not_default [simp]: "placement sd depth i \<noteq> Storage_Default"
  by (simp add: placement_def)

lemma update_storage_Inr:
  "update_storage arrs sd depth i a = Inr arrs1 \<Longrightarrow>
     \<exists>d. map_of arrs a = Some d
        \<and> arrs1 = (if storage d = Storage_Default then set_storage a (placement sd depth i) arrs else arrs)"
  by (auto simp: update_storage_def lookup_desc_def placement_def split: option.splits if_splits)

lemma update_storage_total:
  "map_of arrs a \<noteq> None \<Longrightarrow> \<exists>arrs1. update_storage arrs sd depth i a = Inr arrs1"
  by (auto simp: update_storage_def lookup_desc_def)

lemma first_access_simps [simp]:
  "first_access [] a = None"
  "first_access ((i, AccessNode b) # rest) a = (if b = a then Some i else first_access rest a)"
  "first_access ((i, MapEntry m) # rest) a = first_access rest a"
  "first_access ((i, MapExit m) # rest) a = first_access rest a"
  "first_access ((i, Tasklet t) # rest) a = first_access rest a"
  "first_access ((i, NestedSDFG g) # rest) a = first_access rest a"
  by (simp_all add: first_access_def)

lemma reclassified_Nil [simp]: "reclassified sd depth [] a = (\<lambda>d. d)"
  by (rule ext) (simp add: reclassified_def)

lemma reclassified_simps [simp]:
  "reclassified sd depth ((i, MapEntry m) # rest) a = reclassified sd depth rest a"
  "reclassified sd depth ((i, MapExit m) # rest) a = reclassified sd depth rest a"
  "reclassified sd depth ((i, Tasklet t) # rest) a = reclassified sd depth rest a"
  "reclassified sd depth ((i, NestedSDFG g) # rest) a = reclassified sd depth rest a"
  by (rule ext, simp add: reclassified_def)+

lemma reclassified_access:
  "reclassified sd depth ((i, AccessNode b) # rest) a d =
     (if b = a then (if storage d = Storage_Default then d\<lparr>storage := placement sd depth i\<rparr> else d)
      else reclassified sd depth rest a d)"
  by (simp add: reclassified_def)

lemma reclassified_done:
  "storage d \<noteq> Storage_Default \<Longrightarrow> reclassified sd depth ns a d = d"
  by (simp add: reclassified_def)

lemma fpga_update_nodes_catalog:
  "fpga_update_nodes arrs sd depth ns ms = Inr (arrs', ns', ms') \<Longrightarrow>
     map fst arrs' = map fst arrs
   \<and> (\<forall>a. map_of arrs' a = map_option (reclassified sd depth ns a) (map_of arrs a))"
proof (induction ns arbitrary: arrs arrs' ns' ms ms')
  case Nil
  then show ?case by (simp add: option.map_ident)
next
  case (Cons x ns)
  obtain i n where x: "x = (i, n)" by (cases x)
  show ?case
  proof (cases n)
    case (AccessNode b)
    from Cons.prems obtain arrs1 rest' where
      u: "update_storage arrs sd depth i b = Inr arrs1"
      and r: "fpga_update_nodes arrs1 sd depth ns ms = Inr (arrs', rest', ms')"
      by (auto simp: x AccessNode split: sum.splits prod.splits)
    from update_storage_Inr[OF u] obtain d where
      d: "map_of arrs b = Some d"
         "arrs1 = (if storage d = Storage_Default then set_storage b (placement sd depth i) arrs else arrs)"
      by blast
    from Cons.IH[OF r] have
      IH: "map fst arrs' = map fst arrs1"
          "\<And>a. map_of arrs' a = map_option (reclassified sd depth ns a) (map_of arrs1 a)"
      by auto
    have k: "map fst arrs1 = map fst arrs" using d(2) by (simp add: keys_set_storage)
    have "map_of arrs' a = map_option (reclassified sd depth ((i, AccessNode b) # ns) a) (map_of arrs a)" for a
      using IH(2)[of a] d
      by (cases "map_of arrs a") (auto simp: map_of_set_storage reclassified_access reclassified_done)
    with IH(1) k show ?thesis by (simp add: x AccessNode)
  next
    case (MapEntry m)
    from Cons.prems obtain rest' where
      "fpga_update_nodes arrs sd depth ns (update_schedule ms m) = Inr (arrs', rest', ms')"
      by (auto simp: x MapEntry split: sum.splits prod.splits)
    from Cons.IH[OF this] show ?thesis by (simp add: x MapEntry)
  next
    case (MapExit m)
    from Cons.prems obtain rest' where
      "fpga_update_nodes arrs sd depth ns (update_schedule ms m) = Inr (arrs', rest', ms')"
      by (auto simp: x MapExit split: sum.splits prod.splits)
    from Cons.IH[OF this] show ?thesis by (simp add: x MapExit)
  next
    case (Tasklet t)
    from Cons.prems obtain rest' where
      "fpga_update_nodes arrs sd depth ns ms = Inr (arrs', rest', ms')"
      by (auto simp: x Tasklet split: sum.splits prod.splits)
    from Cons.IH[OF this] show ?thesis by (simp add: x Tasklet)
  next
    case (NestedSDFG g)
    obtain narrs cs sts ces where g: "g = SDFG narrs cs sts ces" by (cases g)
    from Cons.prems obtain rest' where
      "fpga_update_nodes arrs sd depth ns ms = Inr (arrs', rest', ms')"
      by (auto simp: x NestedSDFG g split: sum.splits prod.splits)
    from Cons.IH[OF this] show ?thesis by (simp add: x NestedSDFG)
  qed
qed


lemma update_schedule_apply:
  "update_schedule ms k m =
     (if m = k \<and> schedule (ms k) = Schedule_Default then (ms k)\<lparr>schedule := FPGA_Device\<rparr> else ms m)"
  by (simp add: update_schedule_def)

lemma rescheduled_simps [simp]:
  "rescheduled [] ms m = ms m"
  "rescheduled ((i, AccessNode a) # rest) ms m = rescheduled rest ms m"
  "rescheduled ((i, Tasklet t) # rest) ms m = rescheduled rest ms m"
  "rescheduled ((i, NestedSDFG g) # rest) ms m = rescheduled rest ms m"
  by (simp_all add: rescheduled_def)

lemma rescheduled_map:
  "rescheduled ((i, MapEntry k) # rest) ms m = rescheduled rest (update_schedule ms k) m"
  "rescheduled ((i, MapExit k) # rest) ms m = rescheduled rest (update_schedule ms k) m"
  by (auto simp: rescheduled_def update_schedule_apply)

lemma fpga_update_nodes_maps:
  "fpga_update_nodes arrs sd depth ns ms = Inr (arrs', ns', ms') \<Longrightarrow> ms' m = rescheduled ns ms m"
proof (induction ns arbitrary: arrs arrs' ns' ms ms')
  case Nil
  then show ?case by simp
next
  case (Cons x ns)
  obtain i n where x: "x = (i, n)" by (cases x)
  show ?case
  proof (cases n)
    case (AccessNode b)
    from Cons.prems obtain arrs1 rest' where
      "fpga_update_nodes arrs1 sd depth ns ms = Inr (arrs', rest', ms')"
      by (auto simp: x AccessNode split: sum.splits prod.splits)
    from Cons.IH[OF this] show ?thesis by (simp add: x AccessNode)
  next
    case (MapEntry k)
    from Cons.prems obtain rest' where
      "fpga_update_nodes arrs sd depth ns (update_schedule ms k) = Inr (arrs', rest', ms')"
      by (auto simp: x MapEntry split: sum.splits prod.splits)
    from Cons.IH[OF this] show ?thesis by (simp add: x MapEntry rescheduled_map)
  next
    case (MapExit k)
    from Cons.prems obtain rest' where
      "fpga_update_nodes arrs sd depth ns (update_schedule ms k) = Inr (arrs', rest', ms')"
      by (auto simp: x MapExit split: sum.splits prod.splits)
    from Cons.IH[OF this] show ?thesis by (simp add: x MapExit rescheduled_map)
  next
    case (Tasklet t)
    from Cons.prems obtain rest' where
      "fpga_update_nodes arrs sd depth ns ms = Inr (arrs', rest', ms')"
      by (auto simp: x Tasklet split: sum.splits prod.splits)
    from Cons.IH[OF this] show ?thesis by (simp add: x Tasklet)
  next
    case (NestedSDFG g)
    obtain narrs cs sts ces where g: "g = SDFG narrs cs sts ces" by (cases g)
    from Cons.prems obtain rest' where
      "fpga_update_nodes arrs sd depth ns ms = Inr (arrs', rest', ms')"
      by (auto simp: x NestedSDFG g split: sum.splits prod.splits)
    from Cons.IH[OF this] show ?thesis by (simp add: x NestedSDFG)
  qed
qed

lemma fpga_update_states_chain:
  "fpga_update_states c ss depth = Inr (c', ss') \<Longrightarrow>
     \<exists>cs. cs \<noteq> [] \<and> hd cs = c \<and> last cs = c' \<and> updates_chain depth cs ss ss'"
proof (induction ss arbitrary: c ss')
  case Nil
  then have "c' = c" "ss' = []" by simp_all
  then have "[c] \<noteq> [] \<and> hd [c] = c \<and> last [c] = c' \<and> updates_chain depth [c] [] ss'" by simp
  then show ?case by blast
next
  case (Cons s ss)
  from Cons.prems obtain c1 s' ss1 where
    u: "fpga_update c s depth = Inr (c1, s')"
    and r: "fpga_update_states c1 ss depth = Inr (c', ss1)"
    and e: "ss' = s' # ss1"
    by (auto split: sum.splits prod.splits)
  from Cons.IH[OF r] obtain cs where
    cs: "cs \<noteq> []" "hd cs = c1" "last cs = c'" "updates_chain depth cs ss ss1" by blast
  then obtain rest where cr: "cs = c1 # rest" by (cases cs) auto
  have "c # cs \<noteq> [] \<and> hd (c # cs) = c \<and> last (c # cs) = c' \<and> updates_chain depth (c # cs) (s # ss) ss'"
    using cs u by (simp add: cr e)
  then show ?case by blast
qed

lemma fpga_update_nodes_structure:
  "fpga_update_nodes arrs sd depth ns ms = Inr (arrs', ns', ms') \<Longrightarrow>
     map fst ns' = map fst ns \<and> list_all2 (node_lowered depth) (map snd ns) (map snd ns')"
proof (induction ns arbitrary: arrs arrs' ns' ms ms')
  case Nil
  then show ?case by simp
next
  case (Cons x ns)
  obtain i n where x: "x = (i, n)" by (cases x)
  show ?case
  proof (cases n)
    case (AccessNode b)
    from Cons.prems obtain arrs1 rest' where
      "fpga_update_nodes arrs1 sd depth ns ms = Inr (arrs', rest', ms')" "ns' = (i, n) # rest'"
      by (auto simp: x AccessNode split: sum.splits prod.splits)
    with Cons.IH[OF this(1)] show ?thesis by (simp add: x AccessNode)
  next
    case (MapEntry k)
    from Cons.prems obtain rest' where
      "fpga_update_nodes arrs sd depth ns (update_schedule ms k) = Inr (arrs', rest', ms')"
      "ns' = (i, n) # rest'"
      by (auto simp: x MapEntry split: sum.splits prod.splits)
    with Cons.IH[OF this(1)] show ?thesis by (simp add: x MapEntry)
  next
    case (MapExit k)
    from Cons.prems obtain rest' where
      "fpga_update_nodes arrs sd depth ns (update_schedule ms k) = Inr (arrs', rest', ms')"
      "ns' = (i, n) # rest'"
      by (auto simp: x MapExit split: sum.splits prod.splits)
    with Cons.IH[OF this(1)] show ?thesis by (simp add: x MapExit)
  next
    case (Tasklet t)
    from Cons.prems obtain rest' where
      "fpga_update_nodes arrs sd depth ns ms = Inr (arrs', rest', ms')" "ns' = (i, n) # rest'"
      by (auto simp: x Tasklet split: sum.splits prod.splits)
    with Cons.IH[OF this(1)] show ?thesis by (simp add: x Tasklet)
  next
    case (NestedSDFG g)
    obtain narrs cs sts ces where g: "g = SDFG narrs cs sts ces" by (cases g)
    from Cons.prems obtain narrs' sts' rest' where
      n: "fpga_update_states narrs sts (Suc depth) = Inr (narrs', sts')"
      and r: "fpga_update_nodes arrs sd depth ns ms = Inr (arrs', rest', ms')"
      and e: "ns' = (i, NestedSDFG (SDFG narrs' cs sts' ces)) # rest'"
      by (auto simp: x NestedSDFG g split: sum.splits prod.splits)
    from fpga_update_states_chain[OF n]
    have "child_lowered depth g (SDFG narrs' cs sts' ces)"
      by (simp add: child_lowered_def g)
    with Cons.IH[OF r] show ?thesis by (simp add: x NestedSDFG e)
  qed
qed

lemma all_descs_nodes_dom:
  "(\<And>a. (map_of arrs1 a = None) = (map_of arrs a = None)) \<Longrightarrow>
    all_descs_nodes arrs1 ns = all_descs_nodes arrs ns"
proof (induction ns)
  case Nil
  then show ?case by simp
next
  case (Cons x ns)
  obtain i n where x: "x = (i, n)" by (cases x)
  show ?case
  proof (cases n)
    case (NestedSDFG g)
    then show ?thesis using Cons by (cases g) (simp add: x)
  qed (use Cons in \<open>simp_all add: x\<close>)
qed

lemma all_descs_states_dom:
  "(\<And>a. (map_of arrs1 a = None) = (map_of arrs a = None)) \<Longrightarrow>
    all_descs_states arrs1 ss = all_descs_states arrs ss"
proof (induction ss)
  case Nil
  then show ?case by simp
next
  case (Cons s ss)
  then show ?case using all_descs_nodes_dom[of arrs1 arrs] by (cases s) simp
qed

lemma fpga_update_dom:
  "fpga_update arrs st depth = Inr (arrs', st') \<Longrightarrow> (map_of arrs' a = None) = (map_of arrs a = None)"
  using fpga_update_nodes_catalog[of arrs "sdict st" depth "nodes st" "maps st"]
  by (cases st) (auto split: sum.splits prod.splits)

lemma update_storage_dom:
  "update_storage arrs sd depth i b = Inr arrs1 \<Longrightarrow> (map_of arrs1 a = None) = (map_of arrs a = None)"
  by (drule update_storage_Inr) (auto simp: map_of_set_storage split: if_splits)

lemma fpga_update_total_aux:
  "(all_descs_nodes arrs (nodes st) \<longrightarrow> (\<exists>r. fpga_update arrs st depth = Inr r))"
  "(all_descs_nodes arrs ns \<longrightarrow> (\<exists>r. fpga_update_nodes arrs sd depth ns ms = Inr r))"
  "(all_descs_states arrs ss \<longrightarrow> (\<exists>r. fpga_update_states arrs ss depth = Inr r))"
proof (induction arrs st depth and arrs sd depth ns ms and arrs ss depth
    rule: fpga_update_fpga_update_nodes_fpga_update_states.induct)
  case (1 arrs l ns es ms sd depth)
  then show ?case by (auto split: sum.splits prod.splits)
next
  case (2 arrs sd depth ms)
  then show ?case by simp
next
  case (3 arrs sd depth i a rest ms)
  show ?case
  proof
    assume w: "all_descs_nodes arrs ((i, AccessNode a) # rest)"
    then obtain arrs1 where u: "update_storage arrs sd depth i a = Inr arrs1"
      using update_storage_total[of arrs a sd depth i] by auto
    have "all_descs_nodes arrs1 rest"
      using w all_descs_nodes_dom[of arrs1 arrs rest] update_storage_dom[OF u] by simp
    with 3[OF u] obtain r where "fpga_update_nodes arrs1 sd depth rest ms = Inr r" by blast
    with u show "\<exists>r. fpga_update_nodes arrs sd depth ((i, AccessNode a) # rest) ms = Inr r"
      by (cases r) simp
  qed
next
  case (4 arrs sd depth i m rest ms)
  then show ?case by (auto split: sum.splits prod.splits)
next
  case (5 arrs sd depth i m rest ms)
  then show ?case by (auto split: sum.splits prod.splits)
next
  case (6 arrs sd depth i t rest ms)
  then show ?case by (auto split: sum.splits prod.splits)
next
  case (7 arrs sd depth i narrs cs sts ces rest ms)
  show ?case
  proof
    assume w: "all_descs_nodes arrs ((i, NestedSDFG (SDFG narrs cs sts ces)) # rest)"
    with 7(1) obtain r1 where n: "fpga_update_states narrs sts (Suc depth) = Inr r1" by auto
    obtain narrs' sts' where r1: "r1 = (narrs', sts')" by (cases r1)
    from 7(2)[OF n[unfolded r1] refl] w obtain r where
      "fpga_update_nodes arrs sd depth rest ms = Inr r" by auto
    with n r1 show "\<exists>r. fpga_update_nodes arrs sd depth ((i, NestedSDFG (SDFG narrs cs sts ces)) # rest) ms = Inr r"
      by (cases r) simp
  qed
next
  case (8 arrs depth)
  then show ?case by simp
next
  case (9 arrs s ss depth)
  show ?case
  proof
    assume w: "all_descs_states arrs (s # ss)"
    then have "all_descs_nodes arrs (nodes s)" "all_descs_states arrs ss" by (cases s, simp)+
    with 9(1) obtain r1 where u: "fpga_update arrs s depth = Inr r1" by auto
    obtain arrs1 s' where r1: "r1 = (arrs1, s')" by (cases r1)
    have "all_descs_states arrs1 ss"
      using \<open>all_descs_states arrs ss\<close> all_descs_states_dom[of arrs1 arrs ss]
        fpga_update_dom[OF u[unfolded r1]] by simp
    with 9(2)[OF u[unfolded r1] refl] obtain r where "fpga_update_states arrs1 ss depth = Inr r" by blast
    with u r1 show "\<exists>r. fpga_update_states arrs (s # ss) depth = Inr r"
      by (cases r) simp
  qed
qed


text \<open>
  Claim C5. On a state all of whose access nodes, also those of the nested graphs,
  name descriptors of their catalogs, \<^verbatim>\<open>fpga_update\<close> at a depth \<open>d\<close> returns, and:
  the catalog keeps its names and order; a descriptor still at default storage that an
  access node of the state names becomes accelerator-local when \<open>d \<ge> 2\<close>, and
  otherwise accelerator-local when that node has an enclosing scope and
  accelerator-global when it has none; a descriptor already off default storage, or
  named by no access node, is unchanged; the map of every entry or exit node gets the
  schedule \<^verbatim>\<open>FPGA_Device\<close> when it was at the default and is unchanged
  otherwise; label, edges, scopes and node identities stay; every node but a nested
  SDFG node is unchanged, and a nested SDFG node holds the child graph whose states
  were all updated at depth \<open>d + 1\<close>.
\<close>

theorem fpga_update_reclassifies:
  assumes "all_descs_nodes arrs (nodes st)"
  shows "\<exists>arrs' st'.
           fpga_update arrs st depth = Inr (arrs', st')
         \<and> map fst arrs' = map fst arrs
         \<and> (\<forall>a. map_of arrs' a = map_option (reclassified (sdict st) depth (nodes st) a) (map_of arrs a))
         \<and> (\<forall>m. maps st' m = rescheduled (nodes st) (maps st) m)
         \<and> label st' = label st \<and> edges st' = edges st \<and> sdict st' = sdict st
         \<and> map fst (nodes st') = map fst (nodes st)
         \<and> list_all2 (node_lowered depth) (map snd (nodes st)) (map snd (nodes st'))"
proof -
  obtain l ns es ms sd where st: "st = SDFGState l ns es ms sd" by (cases st)
  from fpga_update_total_aux(2)[of arrs ns sd depth ms] assms obtain arrs' ns' ms' where
    r: "fpga_update_nodes arrs sd depth ns ms = Inr (arrs', ns', ms')"
    by (auto simp: st)
  have "fpga_update arrs st depth = Inr (arrs', SDFGState l ns' es ms' sd)"
    using r by (simp add: st)
  moreover note fpga_update_nodes_catalog[OF r] fpga_update_nodes_maps[OF r]
    fpga_update_nodes_structure[OF r]
  ultimately show ?thesis by (simp add: st)
qed

theorem fpga_update_reclassifies_witness:
  "all_descs_nodes outer_arrays (nodes st_outer)
   \<and> (\<exists>arrs' st'.
         fpga_update outer_arrays st_outer 0 = Inr (arrs', st')
       \<and> map (\<lambda>(n, d). (n, storage d)) arrs'
           = [(''X'', FPGA_Global), (''T'', FPGA_Local), (''H'', CPU_Heap), (''U'', Storage_Default)]
       \<and> storages_nodes (nodes st')
           = [(''in'', FPGA_Global), (''tmp'', FPGA_Local), (''deep'', FPGA_Local)]
       \<and> schedule (maps st' 0) = FPGA_Device)"
proof -
  have h: "all_descs_nodes outer_arrays (nodes st_outer)"
    by (simp add: outer_arrays_def st_outer_def g_inner_def g_deep_def host_array_def)
  from fpga_update_reclassifies[OF h, of 0] obtain arrs' st' where
    r: "fpga_update outer_arrays st_outer 0 = Inr (arrs', st')"
    by blast
  have e: "map (\<lambda>(n, d). (n, storage d)) arrs'
           = [(''X'', FPGA_Global), (''T'', FPGA_Local), (''H'', CPU_Heap), (''U'', Storage_Default)]
       \<and> storages_nodes (nodes st')
           = [(''in'', FPGA_Global), (''tmp'', FPGA_Local), (''deep'', FPGA_Local)]
       \<and> schedule (maps st' 0) = FPGA_Device"
    using r
    by (auto simp: outer_arrays_def st_outer_def g_inner_def g_deep_def host_array_def
        update_storage_def lookup_desc_def set_storage_def update_schedule_def no_maps_def
        unscoped_def split: sum.splits prod.splits)
  show ?thesis
    by (intro conjI exI[where x=arrs'] exI[where x=st']) (use h r e in simp_all)
qed


section \<open>Demotion: proofs\<close>

lemma forget_storage_update:
  "map_of arrs a = Some d \<Longrightarrow>
   forget_storage (AList.update a (d\<lparr>storage := s\<rparr>) arrs) = forget_storage arrs"
  by (induction arrs) (auto simp: forget_storage_def)

lemma forget_set_storage: "forget_storage (set_storage a s arrs) = forget_storage arrs"
  by (simp add: set_storage_def forget_storage_update split: option.splits)

lemma forget_storage_keys: "forget_storage arrs' = forget_storage arrs \<Longrightarrow> map fst arrs' = map fst arrs"
proof -
  assume "forget_storage arrs' = forget_storage arrs"
  then have "map fst (forget_storage arrs') = map fst (forget_storage arrs)" by simp
  then show ?thesis by (simp add: forget_storage_def case_prod_unfold comp_def)
qed

lemma demoted_only_refl: "demoted_only arrs arrs"
  by (simp add: demoted_only_def)

lemma demoted_only_trans:
  assumes "demoted_only a b" "demoted_only b c"
  shows "demoted_only a c"
proof -
  have "map_of c x = map_of a x
        \<or> (\<exists>d. map_of a x = Some d \<and> map_of c x = Some (d\<lparr>storage := FPGA_Local\<rparr>))" for x
  proof -
    from assms(1) consider "map_of b x = map_of a x"
      | d where "map_of a x = Some d" "map_of b x = Some (d\<lparr>storage := FPGA_Local\<rparr>)"
      unfolding demoted_only_def by blast
    then show ?thesis
    proof cases
      case 1
      with assms(2) show ?thesis unfolding demoted_only_def by metis
    next
      case 2
      from assms(2) consider "map_of c x = map_of b x"
        | d' where "map_of b x = Some d'" "map_of c x = Some (d'\<lparr>storage := FPGA_Local\<rparr>)"
        unfolding demoted_only_def by blast
      then show ?thesis using 2 by cases auto
    qed
  qed
  moreover have "forget_storage c = forget_storage a"
    using assms by (simp add: demoted_only_def)
  ultimately show ?thesis by (simp add: demoted_only_def)
qed

lemma demoted_only_set_storage: "demoted_only arrs (set_storage a FPGA_Local arrs)"
  by (auto simp: demoted_only_def forget_set_storage map_of_set_storage)

lemma demoted_only_local: "demoted_only arrs arrs' \<Longrightarrow> is_local arrs a \<Longrightarrow> is_local arrs' a"
  unfolding demoted_only_def is_local_def
  by (elim conjE, drule spec[of _ a]) (auto split: option.splits)

lemma demoted_only_dom:
  "demoted_only arrs arrs' \<Longrightarrow> (map_of arrs' a = None) = (map_of arrs a = None)"
  unfolding demoted_only_def
  by (elim conjE, drule spec[of _ a]) auto

lemma is_local_set_storage: "map_of arrs a \<noteq> None \<Longrightarrow> is_local (set_storage a FPGA_Local arrs) a"
  by (auto simp: is_local_def map_of_set_storage)

lemma retag_nodes_catalog:
  "retag_nodes tr name path arrs ns = Inr (arrs', ns') \<Longrightarrow>
     demoted_only arrs arrs' \<and> node_tags ns' = node_tags ns
   \<and> (\<forall>a. (\<forall>i. (i, AccessNode a) \<in> set ns \<longrightarrow> Some name \<notin> set (tr path i))
          \<longrightarrow> map_of arrs' a = map_of arrs a)"
proof (induction ns arbitrary: arrs arrs' ns')
  case Nil
  then show ?case by (simp add: demoted_only_refl)
next
  case (Cons x ns)
  obtain i n where x: "x = (i, n)" by (cases x)
  show ?case
  proof (cases n)
    case (AccessNode b)
    show ?thesis
    proof (cases "Some name \<in> set (tr path i)")
      case True
      with Cons.prems obtain rest' where
        r: "retag_nodes tr name path (set_storage b FPGA_Local arrs) ns = Inr (arrs', rest')"
        and e: "ns' = (i, AccessNode b) # rest'"
        by (auto simp: x AccessNode split: sum.splits prod.splits)
      from Cons.IH[OF r] have
        IH: "demoted_only (set_storage b FPGA_Local arrs) arrs'" "node_tags rest' = node_tags ns"
            "\<And>a. (\<forall>i. (i, AccessNode a) \<in> set ns \<longrightarrow> Some name \<notin> set (tr path i))
                 \<Longrightarrow> map_of arrs' a = map_of (set_storage b FPGA_Local arrs) a"
        by auto
      have 1: "demoted_only arrs arrs'"
        using demoted_only_trans[OF demoted_only_set_storage IH(1)] .
      have 2: "map_of arrs' a = map_of arrs a"
        if "\<forall>j. (j, AccessNode a) \<in> set ((i, AccessNode b) # ns) \<longrightarrow> Some name \<notin> set (tr path j)" for a
      proof -
        from that True have "a \<noteq> b" by auto
        moreover from that have "\<forall>j. (j, AccessNode a) \<in> set ns \<longrightarrow> Some name \<notin> set (tr path j)" by auto
        ultimately show ?thesis using IH(3)[of a] by (simp add: map_of_set_storage)
      qed
      from 1 2 IH(2) show ?thesis by (simp add: x AccessNode e node_tags_def)
    next
      case False
      with Cons.prems obtain rest' where
        r: "retag_nodes tr name path arrs ns = Inr (arrs', rest')"
        and e: "ns' = (i, AccessNode b) # rest'"
        by (auto simp: x AccessNode split: sum.splits prod.splits)
      from Cons.IH[OF r] show ?thesis by (auto simp: x AccessNode e node_tags_def)
    qed
  next
    case (MapEntry m)
    from Cons.prems obtain rest' where
      r: "retag_nodes tr name path arrs ns = Inr (arrs', rest')" and e: "ns' = (i, n) # rest'"
      by (auto simp: x MapEntry split: sum.splits prod.splits)
    from Cons.IH[OF r] show ?thesis by (auto simp: x MapEntry e node_tags_def)
  next
    case (MapExit m)
    from Cons.prems obtain rest' where
      r: "retag_nodes tr name path arrs ns = Inr (arrs', rest')" and e: "ns' = (i, n) # rest'"
      by (auto simp: x MapExit split: sum.splits prod.splits)
    from Cons.IH[OF r] show ?thesis by (auto simp: x MapExit e node_tags_def)
  next
    case (Tasklet t)
    from Cons.prems obtain rest' where
      r: "retag_nodes tr name path arrs ns = Inr (arrs', rest')" and e: "ns' = (i, n) # rest'"
      by (auto simp: x Tasklet split: sum.splits prod.splits)
    from Cons.IH[OF r] show ?thesis by (auto simp: x Tasklet e node_tags_def)
  next
    case (NestedSDFG g)
    obtain narrs cs sts ces where g: "g = SDFG narrs cs sts ces" by (cases g)
    from Cons.prems obtain narrs' sts' rest' where
      r: "retag_nodes tr name path arrs ns = Inr (arrs', rest')"
      and e: "ns' = (i, NestedSDFG (SDFG narrs' cs sts' ces)) # rest'"
      by (auto simp: x NestedSDFG g split: sum.splits prod.splits)
    from Cons.IH[OF r] show ?thesis by (auto simp: x NestedSDFG e node_tags_def)
  qed
qed

lemma own_scope_nodes_hit:
  "own_scope_nodes tr path ns \<Longrightarrow> (i, AccessNode a) \<in> set ns \<Longrightarrow> Some name \<in> set (tr path i)
    \<Longrightarrow> name = a"
proof (induction ns)
  case Nil
  then show ?case by simp
next
  case (Cons x ns)
  obtain j n where x: "x = (j, n)" by (cases x)
  show ?case
  proof (cases "(i, AccessNode a) = x")
    case True
    with Cons.prems(1,3) show ?thesis by (auto simp: list_all_iff)
  next
    case False
    with Cons show ?thesis by (cases n) (auto simp: x)
  qed
qed

lemma retag_states_catalog:
  "retag_states tr name prefix k arrs ss = Inr (arrs', ss') \<Longrightarrow>
     demoted_only arrs arrs' \<and> map (\<lambda>s. node_tags (nodes s)) ss' = map (\<lambda>s. node_tags (nodes s)) ss
   \<and> (prefix = [] \<longrightarrow> own_scope_states tr k ss \<longrightarrow> (\<forall>a. a \<noteq> name \<longrightarrow> map_of arrs' a = map_of arrs a))"
proof (induction ss arbitrary: k arrs ss')
  case Nil
  then show ?case by (simp add: demoted_only_refl)
next
  case (Cons s ss)
  obtain l ns es ms sd where s: "s = SDFGState l ns es ms sd" by (cases s)
  from Cons.prems obtain arrs1 ns' ss1 where
    n: "retag_nodes tr name (prefix @ [k]) arrs ns = Inr (arrs1, ns')"
    and r: "retag_states tr name prefix (Suc k) arrs1 ss = Inr (arrs', ss1)"
    and e: "ss' = SDFGState l ns' es ms sd # ss1"
    by (auto simp: s split: sum.splits prod.splits)
  note N = retag_nodes_catalog[OF n] and R = Cons.IH[OF r]
  have 1: "demoted_only arrs arrs'" using demoted_only_trans N R by blast
  have 3: "map_of arrs' a = map_of arrs a"
    if "prefix = []" "own_scope_states tr k (s # ss)" "a \<noteq> name" for a
  proof -
    from that(2) have o: "own_scope_nodes tr [k] ns" "own_scope_states tr (Suc k) ss" by (simp_all add: s)
    have "\<forall>i. (i, AccessNode a) \<in> set ns \<longrightarrow> Some name \<notin> set (tr (prefix @ [k]) i)"
      using own_scope_nodes_hit[OF o(1)] that(1,3) by auto
    with N have "map_of arrs1 a = map_of arrs a" by blast
    with R that o show ?thesis by simp
  qed
  from 1 3 N R show ?case by (simp add: e s)
qed


lemma traced_local_nodes_mono:
  "(\<And>a. is_local arrs a \<Longrightarrow> is_local arrs2 a) \<Longrightarrow>
   traced_local_nodes tr n path arrs ns \<Longrightarrow> traced_local_nodes tr n path arrs2 ns"
proof (induction ns)
  case Nil
  then show ?case by simp
next
  case (Cons x ns)
  obtain i nd where x: "x = (i, nd)" by (cases x)
  show ?case
  proof (cases nd)
    case (NestedSDFG g)
    then show ?thesis using Cons by (cases g) (simp add: x)
  qed (use Cons in \<open>auto simp: x\<close>)
qed

lemma traced_local_states_mono:
  "(\<And>a. is_local arrs a \<Longrightarrow> is_local arrs2 a) \<Longrightarrow>
   traced_local_states tr n prefix k arrs ss \<Longrightarrow> traced_local_states tr n prefix k arrs2 ss"
proof (induction ss arbitrary: k)
  case Nil
  then show ?case by simp
next
  case (Cons s ss)
  then show ?case using traced_local_nodes_mono[of arrs arrs2 tr n] by (cases s) auto
qed

lemma retag_total_aux:
  "all_descs_nodes arrs ns \<longrightarrow>
     (\<exists>arrs' ns'. retag_nodes tr name path arrs ns = Inr (arrs', ns') \<and> all_descs_nodes arrs' ns')"
  "all_descs_states arrs ss \<longrightarrow>
     (\<exists>arrs' ss'. retag_states tr name prefix k arrs ss = Inr (arrs', ss') \<and> all_descs_states arrs' ss')"
proof (induction tr name path arrs ns and tr name prefix k arrs ss
    rule: retag_nodes_retag_states.induct)
  case (1 tr name path arrs)
  then show ?case by simp
next
  case (2 tr name path arrs i a rest)
  show ?case
  proof
    assume w: "all_descs_nodes arrs ((i, AccessNode a) # rest)"
    then obtain d where d: "lookup_desc arrs a = Inr d" by (auto simp: lookup_desc_def)
    show "\<exists>arrs' ns'. retag_nodes tr name path arrs ((i, AccessNode a) # rest) = Inr (arrs', ns')
             \<and> all_descs_nodes arrs' ns'"
    proof (cases "Some name \<in> set (tr path i)")
      case True
      have "all_descs_nodes (set_storage a FPGA_Local arrs) rest"
        using w all_descs_nodes_dom[of "set_storage a FPGA_Local arrs" arrs rest]
          demoted_only_dom[OF demoted_only_set_storage] by simp
      with 2(1)[OF True d] obtain arrs' rest' where
        r: "retag_nodes tr name path (set_storage a FPGA_Local arrs) rest = Inr (arrs', rest')"
           "all_descs_nodes arrs' rest'" by blast
      from retag_nodes_catalog[OF r(1)] have "demoted_only (set_storage a FPGA_Local arrs) arrs'" by simp
      with w have "map_of arrs' a \<noteq> None"
        using demoted_only_dom demoted_only_set_storage by (metis all_descs_nodes.simps(2))
      with r True d show ?thesis by simp
    next
      case False
      from 2(2)[OF False] w obtain arrs' rest' where
        r: "retag_nodes tr name path arrs rest = Inr (arrs', rest')" "all_descs_nodes arrs' rest'"
        by auto
      from retag_nodes_catalog[OF r(1)] w have "map_of arrs' a \<noteq> None"
        using demoted_only_dom by (metis all_descs_nodes.simps(2))
      with r False show ?thesis by simp
    qed
  qed
next
  case (3 tr name path arrs i narrs cs sts ces rest)
  show ?case
  proof
    assume w: "all_descs_nodes arrs ((i, NestedSDFG (SDFG narrs cs sts ces)) # rest)"
    with 3(1) obtain narrs' sts' where
      n: "retag_states tr name (path @ [i]) 0 narrs sts = Inr (narrs', sts')"
         "all_descs_states narrs' sts'" by auto
    from 3(2)[OF n(1) refl] w obtain arrs' rest' where
      r: "retag_nodes tr name path arrs rest = Inr (arrs', rest')" "all_descs_nodes arrs' rest'"
      by auto
    from n r show "\<exists>arrs' ns'. retag_nodes tr name path arrs ((i, NestedSDFG (SDFG narrs cs sts ces)) # rest)
              = Inr (arrs', ns') \<and> all_descs_nodes arrs' ns'"
      by simp
  qed
next
  case (5 tr name prefix k arrs)
  then show ?case by simp
next
  case (6 tr name prefix k arrs l ns es ms sd ss)
  show ?case
  proof
    assume w: "all_descs_states arrs (SDFGState l ns es ms sd # ss)"
    with 6(1) obtain arrs1 ns' where
      n: "retag_nodes tr name (prefix @ [k]) arrs ns = Inr (arrs1, ns')" "all_descs_nodes arrs1 ns'"
      by auto
    from retag_nodes_catalog[OF n(1)] have d1: "demoted_only arrs arrs1" by simp
    have "all_descs_states arrs1 ss"
      using w all_descs_states_dom[of arrs1 arrs ss] demoted_only_dom[OF d1] by simp
    with 6(2)[OF n(1) refl] obtain arrs' ss' where
      r: "retag_states tr name prefix (Suc k) arrs1 ss = Inr (arrs', ss')" "all_descs_states arrs' ss'"
      by blast
    from retag_states_catalog[OF r(1)] have d2: "demoted_only arrs1 arrs'" by simp
    have "all_descs_nodes arrs' ns'"
      using n(2) all_descs_nodes_dom[of arrs' arrs1 ns'] demoted_only_dom[OF d2] by simp
    with n r show "\<exists>arrs' ss'. retag_states tr name prefix k arrs (SDFGState l ns es ms sd # ss)
              = Inr (arrs', ss') \<and> all_descs_states arrs' ss'"
      by simp
  qed
qed (auto split: sum.splits prod.splits)

lemma retag_keeps_traced_aux:
  "\<forall>arrs' ns'. retag_nodes tr name path arrs ns = Inr (arrs', ns') \<longrightarrow>
     traced_local_nodes tr n1 path arrs ns \<longrightarrow> traced_local_nodes tr n1 path arrs' ns'"
  "\<forall>arrs' ss'. retag_states tr name prefix k arrs ss = Inr (arrs', ss') \<longrightarrow>
     traced_local_states tr n1 prefix k arrs ss \<longrightarrow> traced_local_states tr n1 prefix k arrs' ss'"
proof (induction tr name path arrs ns and tr name prefix k arrs ss
    rule: retag_nodes_retag_states.induct)
  case (1 tr name path arrs)
  then show ?case by simp
next
  case (2 tr name path arrs i a rest)
  show ?case
  proof (intro allI impI)
    fix arrs' ns'
    assume run: "retag_nodes tr name path arrs ((i, AccessNode a) # rest) = Inr (arrs', ns')"
      and t: "traced_local_nodes tr n1 path arrs ((i, AccessNode a) # rest)"
    note cat = retag_nodes_catalog[OF run]
    have here: "Some n1 \<in> set (tr path i) \<Longrightarrow> is_local arrs' a"
      using t cat demoted_only_local by auto
    show "traced_local_nodes tr n1 path arrs' ns'"
    proof (cases "Some name \<in> set (tr path i)")
      case True
      with run obtain d rest' where
        d: "lookup_desc arrs a = Inr d"
        and r: "retag_nodes tr name path (set_storage a FPGA_Local arrs) rest = Inr (arrs', rest')"
        and e: "ns' = (i, AccessNode a) # rest'"
        by (auto split: sum.splits prod.splits)
      have "traced_local_nodes tr n1 path (set_storage a FPGA_Local arrs) rest"
        using t traced_local_nodes_mono[of arrs "set_storage a FPGA_Local arrs" tr n1 path rest]
          demoted_only_local[OF demoted_only_set_storage] by simp
      with 2(1)[OF True d] r have "traced_local_nodes tr n1 path arrs' rest'" by blast
      with here show ?thesis by (simp add: e)
    next
      case False
      with run obtain rest' where
        r: "retag_nodes tr name path arrs rest = Inr (arrs', rest')"
        and e: "ns' = (i, AccessNode a) # rest'"
        by (auto split: sum.splits prod.splits)
      from 2(2)[OF False] r t have "traced_local_nodes tr n1 path arrs' rest'" by auto
      with here show ?thesis by (simp add: e)
    qed
  qed
next
  case (3 tr name path arrs i narrs cs sts ces rest)
  show ?case
  proof (intro allI impI)
    fix arrs' ns'
    assume run: "retag_nodes tr name path arrs ((i, NestedSDFG (SDFG narrs cs sts ces)) # rest) = Inr (arrs', ns')"
      and t: "traced_local_nodes tr n1 path arrs ((i, NestedSDFG (SDFG narrs cs sts ces)) # rest)"
    from run obtain narrs' sts' rest' where
      n: "retag_states tr name (path @ [i]) 0 narrs sts = Inr (narrs', sts')"
      and r: "retag_nodes tr name path arrs rest = Inr (arrs', rest')"
      and e: "ns' = (i, NestedSDFG (SDFG narrs' cs sts' ces)) # rest'"
      by (auto split: sum.splits prod.splits)
    from 3(1) n t have a: "traced_local_states tr n1 (path @ [i]) 0 narrs' sts'" by auto
    from 3(2)[OF n refl] r t have b: "traced_local_nodes tr n1 path arrs' rest'" by auto
    from a b show "traced_local_nodes tr n1 path arrs' ns'" by (simp add: e)
  qed
next
  case (5 tr name prefix k arrs)
  then show ?case by simp
next
  case (6 tr name prefix k arrs l ns es ms sd ss)
  show ?case
  proof (intro allI impI)
    fix arrs' ss'
    assume run: "retag_states tr name prefix k arrs (SDFGState l ns es ms sd # ss) = Inr (arrs', ss')"
      and t: "traced_local_states tr n1 prefix k arrs (SDFGState l ns es ms sd # ss)"
    from run obtain arrs1 ns' ss1 where
      n: "retag_nodes tr name (prefix @ [k]) arrs ns = Inr (arrs1, ns')"
      and r: "retag_states tr name prefix (Suc k) arrs1 ss = Inr (arrs', ss1)"
      and e: "ss' = SDFGState l ns' es ms sd # ss1"
      by (auto split: sum.splits prod.splits)
    from retag_nodes_catalog[OF n] have d1: "demoted_only arrs arrs1" by simp
    from retag_states_catalog[OF r] have d2: "demoted_only arrs1 arrs'" by simp
    from 6(1) n t have "traced_local_nodes tr n1 (prefix @ [k]) arrs1 ns'" by auto
    then have a: "traced_local_nodes tr n1 (prefix @ [k]) arrs' ns'"
      using traced_local_nodes_mono[of arrs1 arrs'] demoted_only_local[OF d2] by blast
    have "traced_local_states tr n1 prefix (Suc k) arrs1 ss"
      using t traced_local_states_mono[of arrs arrs1] demoted_only_local[OF d1] by auto
    with 6(2)[OF n refl] r have b: "traced_local_states tr n1 prefix (Suc k) arrs' ss1" by blast
    from a b show "traced_local_states tr n1 prefix k arrs' ss'" by (simp add: e)
  qed
qed (auto split: sum.splits prod.splits)


lemma retag_makes_traced_aux:
  "\<forall>arrs' ns'. retag_nodes tr name path arrs ns = Inr (arrs', ns') \<longrightarrow>
     traced_local_nodes tr name path arrs' ns'"
  "\<forall>arrs' ss'. retag_states tr name prefix k arrs ss = Inr (arrs', ss') \<longrightarrow>
     traced_local_states tr name prefix k arrs' ss'"
proof (induction tr name path arrs ns and tr name prefix k arrs ss
    rule: retag_nodes_retag_states.induct)
  case (1 tr name path arrs)
  then show ?case by simp
next
  case (2 tr name path arrs i a rest)
  show ?case
  proof (intro allI impI)
    fix arrs' ns'
    assume run: "retag_nodes tr name path arrs ((i, AccessNode a) # rest) = Inr (arrs', ns')"
    show "traced_local_nodes tr name path arrs' ns'"
    proof (cases "Some name \<in> set (tr path i)")
      case True
      with run obtain d rest' where
        d: "lookup_desc arrs a = Inr d"
        and r: "retag_nodes tr name path (set_storage a FPGA_Local arrs) rest = Inr (arrs', rest')"
        and e: "ns' = (i, AccessNode a) # rest'"
        by (auto split: sum.splits prod.splits)
      from d have "map_of arrs a \<noteq> None" by (auto simp: lookup_desc_def split: option.splits)
      then have "is_local (set_storage a FPGA_Local arrs) a" by (rule is_local_set_storage)
      with retag_nodes_catalog[OF r] have "is_local arrs' a" using demoted_only_local by blast
      moreover from 2(1)[OF True d] r have "traced_local_nodes tr name path arrs' rest'" by blast
      ultimately show ?thesis by (simp add: e)
    next
      case False
      with run obtain rest' where
        r: "retag_nodes tr name path arrs rest = Inr (arrs', rest')"
        and e: "ns' = (i, AccessNode a) # rest'"
        by (auto split: sum.splits prod.splits)
      from 2(2)[OF False] r have "traced_local_nodes tr name path arrs' rest'" by auto
      with False show ?thesis by (simp add: e)
    qed
  qed
next
  case (3 tr name path arrs i narrs cs sts ces rest)
  show ?case
  proof (intro allI impI)
    fix arrs' ns'
    assume run: "retag_nodes tr name path arrs ((i, NestedSDFG (SDFG narrs cs sts ces)) # rest) = Inr (arrs', ns')"
    from run obtain narrs' sts' rest' where
      n: "retag_states tr name (path @ [i]) 0 narrs sts = Inr (narrs', sts')"
      and r: "retag_nodes tr name path arrs rest = Inr (arrs', rest')"
      and e: "ns' = (i, NestedSDFG (SDFG narrs' cs sts' ces)) # rest'"
      by (auto split: sum.splits prod.splits)
    from 3(1) n have a: "traced_local_states tr name (path @ [i]) 0 narrs' sts'" by auto
    from 3(2)[OF n refl] r have b: "traced_local_nodes tr name path arrs' rest'" by auto
    from a b show "traced_local_nodes tr name path arrs' ns'" by (simp add: e)
  qed
next
  case (5 tr name prefix k arrs)
  then show ?case by simp
next
  case (6 tr name prefix k arrs l ns es ms sd ss)
  show ?case
  proof (intro allI impI)
    fix arrs' ss'
    assume run: "retag_states tr name prefix k arrs (SDFGState l ns es ms sd # ss) = Inr (arrs', ss')"
    from run obtain arrs1 ns' ss1 where
      n: "retag_nodes tr name (prefix @ [k]) arrs ns = Inr (arrs1, ns')"
      and r: "retag_states tr name prefix (Suc k) arrs1 ss = Inr (arrs', ss1)"
      and e: "ss' = SDFGState l ns' es ms sd # ss1"
      by (auto split: sum.splits prod.splits)
    from retag_states_catalog[OF r] have d2: "demoted_only arrs1 arrs'" by simp
    from 6(1) n have "traced_local_nodes tr name (prefix @ [k]) arrs1 ns'" by auto
    then have a: "traced_local_nodes tr name (prefix @ [k]) arrs' ns'"
      using traced_local_nodes_mono[of arrs1 arrs'] demoted_only_local[OF d2] by blast
    from 6(2)[OF n refl] r have b: "traced_local_states tr name prefix (Suc k) arrs' ss1" by blast
    from a b show "traced_local_states tr name prefix k arrs' ss'" by (simp add: e)
  qed
qed (auto split: sum.splits prod.splits)

(* shape facts *)
lemma state_references_tags:
  "node_tags (nodes s') = node_tags (nodes s) \<Longrightarrow> state_references s' name = state_references s name"
proof -
  assume a: "node_tags (nodes s') = node_tags (nodes s)"
  have "state_references s name = list_ex (\<lambda>(i, t). t = Some name) (node_tags (nodes s))" for s
  proof -
    have "is_access (Some n) name = (access_name n = Some name)" for n
      by (cases n) auto
    then show ?thesis
      by (simp add: state_references_def node_tags_def list_ex_iff case_prod_unfold)
  qed
  with a show ?thesis by simp
qed

lemma own_scope_nodes_tags:
  "node_tags ns' = node_tags ns \<Longrightarrow> own_scope_nodes tr path ns' = own_scope_nodes tr path ns"
proof (induction ns arbitrary: ns')
  case Nil
  then show ?case by (simp add: node_tags_def)
next
  case (Cons x ns)
  then obtain x' rest' where e: "ns' = x' # rest'" by (cases ns') (auto simp: node_tags_def)
  obtain i n where x: "x = (i, n)" by (cases x)
  obtain i' n' where x': "x' = (i', n')" by (cases x')
  from Cons.prems have h: "i' = i" "access_name n' = access_name n" "node_tags rest' = node_tags ns"
    by (simp_all add: e x x' node_tags_def)
  from Cons.IH[OF h(3)] h(1,2) show ?case
    by (cases n; cases n') (simp_all add: e x x')
qed

lemma own_scope_states_tags:
  "map (\<lambda>s. node_tags (nodes s)) ss' = map (\<lambda>s. node_tags (nodes s)) ss \<Longrightarrow>
   own_scope_states tr k ss' = own_scope_states tr k ss"
proof (induction ss arbitrary: ss' k)
  case Nil
  then show ?case by simp
next
  case (Cons s ss)
  then obtain s' rest' where e: "ss' = s' # rest'" by (cases ss') auto
  with Cons.prems have h: "node_tags (nodes s') = node_tags (nodes s)"
    "map (\<lambda>s. node_tags (nodes s)) rest' = map (\<lambda>s. node_tags (nodes s)) ss" by simp_all
  from Cons.IH[OF h(2)] own_scope_nodes_tags[OF h(1)] show ?case by (simp add: e)
qed

lemma state_references_by_tags:
  "state_references s name = list_ex (\<lambda>(i, t). t = Some name) (node_tags (nodes s))"
proof -
  have "is_access (Some n) name = (access_name n = Some name)" for n
    by (cases n) auto
  then show ?thesis
    by (simp add: state_references_def node_tags_def list_ex_iff case_prod_unfold)
qed

lemma shared_transients_shape:
  assumes a: "forget_storage (arrays g') = forget_storage (arrays g)"
      and s: "map (\<lambda>s. node_tags (nodes s)) (states g') = map (\<lambda>s. node_tags (nodes s)) (states g)"
  shows "shared_transients g' = shared_transients g"
proof -
  define cnt where "cnt name = length (filter (\<lambda>st. state_references st name) (states g))" for name
  have c: "length (filter (\<lambda>st. state_references st name) (states g')) = cnt name" for name
  proof -
    have "length (filter (\<lambda>st. state_references st name) sts)
          = length (filter (list_ex (\<lambda>(i, t). t = Some name)) (map (\<lambda>s. node_tags (nodes s)) sts))" for sts
      by (simp add: filter_map comp_def state_references_by_tags)
    from this[of "states g'"] this[of "states g"] show ?thesis
      unfolding cnt_def s by (rule trans[OF _ sym])
  qed
  define h :: "string \<times> desc \<Rightarrow> string \<times> desc" where "h = (\<lambda>(n, d). (n, d\<lparr>storage := Storage_Default\<rparr>))"
  define Q :: "string \<times> desc \<Rightarrow> bool" where "Q = (\<lambda>(name, d). transient d \<and> 2 \<le> cnt name)"
  have qh: "Q \<circ> h = Q" by (auto simp: Q_def h_def)
  have fh: "fst \<circ> h = fst" by (auto simp: h_def)
  have gen: "map fst (filter Q xs) = map fst (filter Q (map h xs))" for xs
    by (simp add: filter_map qh fh)
  have m: "map h (arrays g') = map h (arrays g)"
    using a by (simp add: forget_storage_def h_def)
  have "shared_transients g' = map fst (filter Q (arrays g'))"
    by (simp add: shared_transients_def c Q_def)
  also have "\<dots> = map fst (filter Q (arrays g))"
    using gen[of "arrays g'"] gen[of "arrays g"] m by simp
  also have "\<dots> = shared_transients g"
    by (simp add: shared_transients_def cnt_def Q_def)
  finally show ?thesis .
qed


lemma stable_refl: "stable g g"
  by (simp add: stable_def)

lemma stable_trans: "stable a b \<Longrightarrow> stable b c \<Longrightarrow> stable a c"
  by (simp add: stable_def)

lemma stable_own_scope: "stable g g' \<Longrightarrow> own_scope_only tr g' = own_scope_only tr g"
  using own_scope_states_tags[of "states g'" "states g" tr 0]
  by (simp add: stable_def own_scope_only_def)

lemma forget_storage_lookup:
  "forget_storage arrs' = forget_storage arrs \<Longrightarrow>
   map_option (\<lambda>d. d\<lparr>storage := Storage_Default\<rparr>) (map_of arrs' a)
     = map_option (\<lambda>d. d\<lparr>storage := Storage_Default\<rparr>) (map_of arrs a)"
proof -
  have "map_of (forget_storage xs) a = map_option (\<lambda>d. d\<lparr>storage := Storage_Default\<rparr>) (map_of xs a)" for xs
    by (induction xs) (auto simp: forget_storage_def)
  then show "forget_storage arrs' = forget_storage arrs \<Longrightarrow> ?thesis" by metis
qed

lemma demotable_stable:
  assumes "stable g g'" "map_of (arrays g') a = map_of (arrays g) a"
  shows "demotable g' a = demotable g a"
proof -
  from assms(1) have "shared_transients g' = shared_transients g" "constants g' = constants g"
    using shared_transients_shape[of g' g] by (simp_all add: stable_def)
  with assms(2) show ?thesis
    by (simp add: demotable_def resolve_symbol_to_constant_def split: option.splits)
qed

lemma not_demotable_local:
  "map_of (arrays g) a = Some d \<Longrightarrow> storage d = FPGA_Local \<Longrightarrow> \<not> demotable g a"
  by (simp add: demotable_def)


lemma g2l_step:
  assumes os: "own_scope_only tr g" and ad: "all_descs_states (arrays g) (states g)"
      and dm: "demotable g name"
  shows "\<exists>arrs' sts'.
           retag_states tr name [] 0 (set_storage name FPGA_Local (arrays g)) (states g) = Inr (arrs', sts')
         \<and> stable g (SDFG arrs' (constants g) sts' (cedges g))
         \<and> (\<forall>a. map_of arrs' a
                 = (if a = name then map_option (\<lambda>d. d\<lparr>storage := FPGA_Local\<rparr>) (map_of (arrays g) a)
                    else map_of (arrays g) a))
         \<and> all_descs_states arrs' sts'
         \<and> traced_local_states tr name [] 0 arrs' sts'
         \<and> (\<forall>n. traced_local_states tr n [] 0 (arrays g) (states g)
                \<longrightarrow> traced_local_states tr n [] 0 arrs' sts')"
proof -
  let ?a1 = "set_storage name FPGA_Local (arrays g)"
  have d0: "demoted_only (arrays g) ?a1" by (rule demoted_only_set_storage)
  have "all_descs_states ?a1 (states g)"
    using ad all_descs_states_dom[of ?a1 "arrays g" "states g"] demoted_only_dom[OF d0] by simp
  with retag_total_aux(2)[of ?a1 "states g" tr name "[]" 0] obtain arrs' sts' where
    r: "retag_states tr name [] 0 ?a1 (states g) = Inr (arrs', sts')"
    and ad': "all_descs_states arrs' sts'" by blast
  note cat = retag_states_catalog[OF r]
  from cat have d1: "demoted_only ?a1 arrs'" by simp
  have d: "demoted_only (arrays g) arrs'" using demoted_only_trans[OF d0 d1] .
  have st: "stable g (SDFG arrs' (constants g) sts' (cedges g))"
    using d cat by (simp add: stable_def demoted_only_def)
  from dm obtain dsc where dsc: "map_of (arrays g) name = Some dsc"
    by (auto simp: demotable_def split: option.splits)
  have look: "map_of arrs' a
                 = (if a = name then map_option (\<lambda>d. d\<lparr>storage := FPGA_Local\<rparr>) (map_of (arrays g) a)
                    else map_of (arrays g) a)" for a
  proof (cases "a = name")
    case True
    have "map_of ?a1 name = Some (dsc\<lparr>storage := FPGA_Local\<rparr>)"
      by (simp add: map_of_set_storage dsc)
    moreover from d1 have "map_of arrs' name = map_of ?a1 name
        \<or> (\<exists>d. map_of ?a1 name = Some d \<and> map_of arrs' name = Some (d\<lparr>storage := FPGA_Local\<rparr>))"
      by (simp add: demoted_only_def)
    ultimately show ?thesis using True dsc by auto
  next
    case False
    from os cat False have "map_of arrs' a = map_of ?a1 a" by (simp add: own_scope_only_def)
    with False show ?thesis by (simp add: map_of_set_storage)
  qed
  have keep: "traced_local_states tr n [] 0 arrs' sts'"
    if "traced_local_states tr n [] 0 (arrays g) (states g)" for n
  proof -
    from that have "traced_local_states tr n [] 0 ?a1 (states g)"
      using traced_local_states_mono[of "arrays g" ?a1] demoted_only_local[OF d0] by blast
    with retag_keeps_traced_aux(2)[of tr name "[]" 0 ?a1 "states g" n] r show ?thesis by blast
  qed
  from retag_makes_traced_aux(2)[of tr name "[]" 0 ?a1 "states g"] r
  have made: "traced_local_states tr name [] 0 arrs' sts'" by blast
  from r st look ad' made keep show ?thesis by blast
qed


lemma count_step:
  assumes "P name"
  shows "length (remdups (filter P (name # names)))
       = Suc (length (remdups (filter (\<lambda>x. P x \<and> x \<noteq> name) names)))"
proof -
  have "set (filter (\<lambda>x. P x \<and> x \<noteq> name) names) = set (filter P names) - {name}" by auto
  then show ?thesis
    using assms by (simp add: length_remdups_card_conv card.insert_remove del: remdups.simps)
qed

lemma g2l_loop_spec:
  assumes "own_scope_only tr g" "all_descs_states (arrays g) (states g)"
  shows "\<exists>g' count'.
           g2l_loop tr names g count = Inr (g', count')
         \<and> stable g g'
         \<and> (\<forall>a. map_of (arrays g') a
                 = map_option (\<lambda>d. if a \<in> set names \<and> demotable g a
                                    then d\<lparr>storage := FPGA_Local\<rparr> else d) (map_of (arrays g) a))
         \<and> count' = count + length (remdups (filter (demotable g) names))
         \<and> (\<forall>name\<in>set names. demotable g name \<longrightarrow> traced_local tr name g')
         \<and> (\<forall>n. traced_local tr n g \<longrightarrow> traced_local tr n g')"
  using assms
proof (induction names arbitrary: g count)
  case Nil
  then show ?case by (simp add: stable_refl option.map_ident)
next
  case (Cons name names)
  show ?case
  proof (cases "demotable g name")
    case False
    then have run: "g2l_loop tr (name # names) g count = g2l_loop tr names g count"
      by (auto simp: demotable_def split: option.splits)
    from Cons.IH[OF Cons.prems, of count] obtain g' count' where
      r: "g2l_loop tr names g count = Inr (g', count')" "stable g g'"
         "\<And>a. map_of (arrays g') a
                 = map_option (\<lambda>d. if a \<in> set names \<and> demotable g a
                                    then d\<lparr>storage := FPGA_Local\<rparr> else d) (map_of (arrays g) a)"
         "count' = count + length (remdups (filter (demotable g) names))"
         "\<forall>name\<in>set names. demotable g name \<longrightarrow> traced_local tr name g'"
         "\<forall>n. traced_local tr n g \<longrightarrow> traced_local tr n g'"
      by blast
    have look: "map_of (arrays g') a
                 = map_option (\<lambda>d. if a \<in> set (name # names) \<and> demotable g a
                                    then d\<lparr>storage := FPGA_Local\<rparr> else d) (map_of (arrays g) a)" for a
      using r(3)[of a] False by (cases "a = name") (auto intro: map_option_cong)
    from run r(1,2,4,5,6) look False show ?thesis by auto
  next
    case True
    then obtain dsc where dsc: "map_of (arrays g) name = Some dsc"
      "transient dsc" "name \<notin> set (shared_transients g)" "storage dsc = FPGA_Global"
      "resolve_symbol_to_constant (total_size dsc) g \<noteq> None"
      by (auto simp: demotable_def split: option.splits)
    from g2l_step[OF Cons.prems True] obtain arrs' sts' where
      s: "retag_states tr name [] 0 (set_storage name FPGA_Local (arrays g)) (states g) = Inr (arrs', sts')"
         "stable g (SDFG arrs' (constants g) sts' (cedges g))"
         "\<And>a. map_of arrs' a
                 = (if a = name then map_option (\<lambda>d. d\<lparr>storage := FPGA_Local\<rparr>) (map_of (arrays g) a)
                    else map_of (arrays g) a)"
         "all_descs_states arrs' sts'"
         "traced_local_states tr name [] 0 arrs' sts'"
         "\<forall>n. traced_local_states tr n [] 0 (arrays g) (states g)
                \<longrightarrow> traced_local_states tr n [] 0 arrs' sts'"
      by blast
    define g1 where "g1 = SDFG arrs' (constants g) sts' (cedges g)"
    have run: "g2l_loop tr (name # names) g count = g2l_loop tr names g1 (count + 1)"
      using dsc s(1) by (auto simp: g1_def)
    have os1: "own_scope_only tr g1"
      using stable_own_scope[OF s(2)] Cons.prems(1) by (simp add: g1_def)
    have ad1: "all_descs_states (arrays g1) (states g1)" using s(4) by (simp add: g1_def)
    from Cons.IH[OF os1 ad1, of "count + 1"] obtain g' count' where
      r: "g2l_loop tr names g1 (count + 1) = Inr (g', count')" "stable g1 g'"
         "\<And>a. map_of (arrays g') a
                 = map_option (\<lambda>d. if a \<in> set names \<and> demotable g1 a
                                    then d\<lparr>storage := FPGA_Local\<rparr> else d) (map_of (arrays g1) a)"
         "count' = count + 1 + length (remdups (filter (demotable g1) names))"
         "\<forall>name\<in>set names. demotable g1 name \<longrightarrow> traced_local tr name g'"
         "\<forall>n. traced_local tr n g1 \<longrightarrow> traced_local tr n g'"
      by blast
    have st1: "stable g g1" using s(2) by (simp add: g1_def)
    have n1: "\<not> demotable g1 name"
      by (rule not_demotable_local[of g1 name "dsc\<lparr>storage := FPGA_Local\<rparr>"])
         (simp_all add: g1_def s(3) dsc)
    have d1: "demotable g1 a = (demotable g a \<and> a \<noteq> name)" for a
    proof (cases "a = name")
      case True
      with n1 show ?thesis by simp
    next
      case False
      then have "map_of (arrays g1) a = map_of (arrays g) a" by (simp add: g1_def s(3))
      from demotable_stable[OF st1 this] False show ?thesis by simp
    qed
    have look: "map_of (arrays g') a
                 = map_option (\<lambda>d. if a \<in> set (name # names) \<and> demotable g a
                                    then d\<lparr>storage := FPGA_Local\<rparr> else d) (map_of (arrays g) a)" for a
    proof (cases "a = name")
      case True
      with r(3)[of a] n1 True dsc \<open>demotable g name\<close> show ?thesis
        by (simp add: g1_def s(3))
    next
      case False
      with r(3)[of a] d1[of a] show ?thesis
        by (cases "map_of (arrays g) a") (simp_all add: g1_def s(3))
    qed
    have cnt: "count' = count + length (remdups (filter (demotable g) (name # names)))"
    proof -
      have "filter (demotable g1) names = filter (\<lambda>x. demotable g x \<and> x \<noteq> name) names"
        using d1 by (intro filter_cong) auto
      with r(4) count_step[of "demotable g" name names] True show ?thesis by simp
    qed
    have tl1: "traced_local tr name g1" using s(5) by (simp add: traced_local_def g1_def)
    have keep1: "traced_local tr n g1" if "traced_local tr n g" for n
      using s(6) that by (simp add: traced_local_def g1_def)
    have tl: "traced_local tr x g'" if "x \<in> set (name # names)" "demotable g x" for x
    proof (cases "x = name")
      case True
      with tl1 r(6) show ?thesis by blast
    next
      case False
      with that d1[of x] r(5) show ?thesis by auto
    qed
    have keep: "\<forall>n. traced_local tr n g \<longrightarrow> traced_local tr n g'"
      using keep1 r(6) by blast
    from run r(1) stable_trans[OF st1 r(2)] look cnt tl keep show ?thesis by auto
  qed
qed


lemma g_demo_count: "demoted_count g_demo = 1"
  by code_simp

lemma g_demo_observed_quiet:
  "g2l_observed (fpga_global_to_local tr_demo False g_demo)
     = Inr (None, [],
            [(''T'', FPGA_Local), (''S'', FPGA_Global), (''V'', FPGA_Global), (''P'', FPGA_Global)],
            [(''t_in'', FPGA_Local)])"
  by code_simp

lemma g_demo_observed_debug:
  "g2l_observed (fpga_global_to_local tr_demo True g_demo)
     = Inr (None, [''Applied 1 Global-To-Local.''],
            [(''T'', FPGA_Local), (''S'', FPGA_Global), (''V'', FPGA_Global), (''P'', FPGA_Global)],
            [(''t_in'', FPGA_Local)])"
  by code_simp

lemma g_demo_hyps:
  "own_scope_only tr_demo g_demo" "all_descs_states (arrays g_demo) (states g_demo)"
  by code_simp+



text \<open>
  Claim C9, as amended. Under the same conditions \<^verbatim>\<open>fpga_global_to_local\<close> does
  not fail and returns \<^verbatim>\<open>None\<close> to its caller; the number of demoted arrays is
  reported only through the line it prints when the debug toggle is on, and with the
  toggle off nothing is printed; arrays that fail a demotion condition are left
  unchanged.
\<close>

theorem fpga_global_to_local_reports:
  assumes "own_scope_only tr g" "all_descs_states (arrays g) (states g)"
  shows "\<exists>g'. fpga_global_to_local tr debugprint g
                = Inr \<lparr>g2l_graph = g', g2l_return = None,
                       g2l_printed =
                         (if debugprint
                          then [''Applied '' @ show_nat (demoted_count g) @ '' Global-To-Local.'']
                          else [])\<rparr>
            \<and> (\<forall>name. \<not> demotable g name \<longrightarrow> map_of (arrays g') name = map_of (arrays g) name)"
proof -
  from g2l_loop_spec[OF assms, of "map fst (arrays g)" 0] obtain g' count' where
    r: "g2l_loop tr (map fst (arrays g)) g 0 = Inr (g', count')"
       "\<And>a. map_of (arrays g') a
                 = map_option (\<lambda>d. if a \<in> set (map fst (arrays g)) \<and> demotable g a
                                    then d\<lparr>storage := FPGA_Local\<rparr> else d) (map_of (arrays g) a)"
       "count' = 0 + length (remdups (filter (demotable g) (map fst (arrays g))))"
    by blast
  have "map_of (arrays g') name = map_of (arrays g) name" if "\<not> demotable g name" for name
    using r(2)[of name] that by (simp add: option.map_ident)
  with r(1,3) show ?thesis by (simp add: fpga_global_to_local_def demoted_count_def)
qed

theorem fpga_global_to_local_reports_witness:
  "own_scope_only tr_demo g_demo \<and> all_descs_states (arrays g_demo) (states g_demo)
   \<and> demoted_count g_demo = 1
   \<and> (\<exists>g'. fpga_global_to_local tr_demo True g_demo
              = Inr \<lparr>g2l_graph = g', g2l_return = None,
                     g2l_printed = [''Applied 1 Global-To-Local.'']\<rparr>)"
proof -
  note h = g_demo_hyps
  have e: "[''Applied '' @ show_nat (demoted_count g_demo) @ '' Global-To-Local.'']
           = [''Applied 1 Global-To-Local.'']" by code_simp
  from fpga_global_to_local_reports[OF h, of True] obtain g' where
    "fpga_global_to_local tr_demo True g_demo
          = Inr \<lparr>g2l_graph = g', g2l_return = None,
                 g2l_printed = [''Applied '' @ show_nat (demoted_count g_demo) @ '' Global-To-Local.'']\<rparr>"
    by (auto simp del: show_nat.simps)
  note r = this[unfolded e]
  show ?thesis
    by (intro conjI exI[where x=g']) (rule h g_demo_count r)+
qed

text \<open>
  Claim C9 as stated fails: on \<open>g_demo\<close> one array is demoted, and with the debug
  toggle off the function returns \<^verbatim>\<open>None\<close> and prints nothing, so no count reaches
  the caller.
\<close>

theorem fpga_global_to_local_returns_none_counterexample:
  "demoted_count g_demo = 1
   \<and> g2l_observed (fpga_global_to_local tr_demo False g_demo)
       = Inr (None, [],
              [(''T'', FPGA_Local), (''S'', FPGA_Global), (''V'', FPGA_Global), (''P'', FPGA_Global)],
              [(''t_in'', FPGA_Local)])"
  by (intro conjI) (rule g_demo_count g_demo_observed_quiet)+


section \<open>The rewrite on concrete states\<close>

lemmas graph_ops =
  find_source_nodes_def find_sink_nodes_def in_edges_def out_edges_def all_edges_def
  add_node_def add_edge_def change_edge_src_def change_edge_dest_def remove_node_def
  node_of_def lookup_desc_def add_array_def empty_state_def

lemmas rewrite_ops =
  FPGATransformState_apply_def initial_items_def nested_items_def stage_inputs_def
  stage_outputs_def lower_state_def proxy_for_def pre_copy_def post_copy_def fresh_id_def
  nested_veclen_def rewrite_memlet_def redirect_dest_def redirect_src_def

text \<open>
  Claim C1 fails on the code. The state \<open>st_xy\<close> has exactly one input node, the
  unscoped access node of the array \<open>X\<close>, exactly one output node, the unscoped
  access node of the array \<open>Y\<close>, and no edge with a conflict resolution. The
  rewrite does not reach its postcondition on it: the loop over the edges reads
  \<^verbatim>\<open>veclen_\<close>, which only an edge at a nested SDFG binds, at the first memlet
  that names \<open>X\<close>, and \<^verbatim>\<open>apply\<close> ends with an UnboundLocalError before
  \<^verbatim>\<open>fpga_update\<close> runs.
\<close>

theorem apply_unbound_veclen:
  "find_source_nodes st_xy = [(0, AccessNode ''X'')]
   \<and> find_sink_nodes st_xy = [(2, AccessNode ''Y'')]
   \<and> \<not> has_wcr st_xy
   \<and> unscoped 0 = None \<and> unscoped 2 = None
   \<and> FPGATransformState_apply g_xy 0 = Inl UnboundLocalError"
  by (simp add: g_xy_def st_xy_def mk_edge_def host_array_def has_wcr_def unscoped_def
      graph_ops rewrite_ops)

text \<open>
  Claim C7 fails on the code. In \<open>st_stale\<close> only the first edge touches a nested
  SDFG, whose connector \<open>a\<close> is read four elements wide; the other two edges join
  access nodes and a tasklet and have width one. After the rewrite all three memlets
  name their proxies, and the second and third carry the width four, which was read
  for the first edge and left in \<^verbatim>\<open>veclen_\<close>.
\<close>

theorem apply_stale_veclen:
  "map (\<lambda>e. (src e, dst e, m_data (e_data e), veclen (e_data e))) (edges st_stale)
     = [(0, 1, Some ''X'', 1), (2, 3, Some ''Z'', 1), (3, 4, Some ''Y'', 1)]
   \<and> lowered_edges g_stale 0
     = Inr [(14, 1, Some ''fpga_X'', 4), (17, 3, Some ''fpga_Z'', 4), (3, 20, Some ''fpga_Y'', 4)]"
  by (simp add: lowered_edges_def g_stale_def st_stale_def g_vec_def mk_edge_def host_array_def
      unscoped_def no_maps_def update_storage_def set_storage_def
      graph_ops rewrite_ops)

section \<open>Re-running the applicability check: proofs\<close>
























lemma default_entry_simps [simp]:
  "default_entry st (i, MapEntry m) = (schedule (maps st m) = Schedule_Default \<or> default_above st i)"
  "default_entry st (i, AccessNode a) = False"
  "default_entry st (i, MapExit m) = False"
  "default_entry st (i, Tasklet t) = False"
  "default_entry st (i, NestedSDFG g) = False"
  by (simp_all add: default_entry_def)

lemma has_access_simps [simp]:
  "has_access [] = False"
  "has_access ((i, AccessNode a) # ns) = True"
  "has_access ((i, MapEntry m) # ns) = has_access ns"
  "has_access ((i, MapExit m) # ns) = has_access ns"
  "has_access ((i, Tasklet t) # ns) = has_access ns"
  "has_access ((i, NestedSDFG g) # ns) = has_access ns"
  by (simp_all add: has_access_def)






















end
